theory Spec2Isabelle
  imports Main
begin

section \<open>Errors and configuration\<close>

text \<open>
  The three error values of the package (\<^verbatim>\<open>errors.go\<close>) and the parser configuration
  (\<^verbatim>\<open>config.go\<close>). Go's \<^verbatim>\<open>int\<close> fields are modelled as \<^typ>\<open>int\<close>: the code only compares
  them, so no arithmetic can overflow. A nil slice of allowed elements is \<^term>\<open>None\<close>.
\<close>

datatype error = ErrMaxDepthExceeded | ErrMaxBufferSizeExceeded | ErrInvalidConfiguration

record ParserConfig =
  MaxDepth :: int
  MaxBufferSize :: int
  AllowedElements :: "string list option"
  BufferCleanupThreshold :: int

definition DefaultConfig :: ParserConfig where
  "DefaultConfig =
     \<lparr>MaxDepth = 100, MaxBufferSize = 10 * 1024 * 1024,
      AllowedElements = None, BufferCleanupThreshold = 1024\<rparr>"

definition Validate :: "ParserConfig \<Rightarrow> error option" where
  "Validate c =
     (if MaxDepth c < 1 then Some ErrInvalidConfiguration
      else if MaxBufferSize c < 1024 then Some ErrInvalidConfiguration
      else if BufferCleanupThreshold c < 0 then Some ErrInvalidConfiguration
      else None)"

section \<open>Strings of the Go standard library\<close>

text \<open>
  A Go string is a sequence of bytes; \<^typ>\<open>string\<close> is a list of 8-bit characters, so
  \<^term>\<open>length\<close> is Go's \<^verbatim>\<open>len\<close>. The tokenizer tests single bytes with
  \<^verbatim>\<open>unicode.IsSpace(rune(b))\<close>, which holds for the six ASCII white-space bytes and for the
  bytes 0x85 and 0xA0.
\<close>

definition isAsciiSpace :: "char \<Rightarrow> bool" where
  "isAsciiSpace c =
     (c = CHR 0x09 \<or> c = CHR 0x0A \<or> c = CHR 0x0B \<or> c = CHR 0x0C \<or> c = CHR 0x0D \<or> c = CHR 0x20)"

definition isSpaceByte :: "char \<Rightarrow> bool" where
  "isSpaceByte c = (isAsciiSpace c \<or> c = CHR 0x85 \<or> c = CHR 0xA0)"

text \<open>
  \<^verbatim>\<open>strings.TrimSpace\<close>, \<^verbatim>\<open>strings.Fields\<close> and a \<^verbatim>\<open>range\<close> loop over a string decode
  UTF-8 and test whole runes. \<open>spaceRuneWidth s\<close> is the number of bytes of the white-space
  rune that \<open>s\<close> begins with, and 0 when \<open>s\<close> does not begin with one: the ASCII ones,
  U+0085, U+00A0, U+1680, U+2000 to U+200A, U+2028, U+2029, U+202F, U+205F and U+3000.
\<close>

definition spaceRuneWidth :: "string \<Rightarrow> nat" where
  "spaceRuneWidth s =
     (case s of
        [] \<Rightarrow> 0
      | c # r \<Rightarrow>
          if isAsciiSpace c then 1
          else if c = CHR 0xC2 then
            (if take 1 r = [CHR 0x85] \<or> take 1 r = [CHR 0xA0] then 2 else 0)
          else if c = CHR 0xE1 then
            (if take 2 r = [CHR 0x9A, CHR 0x80] then 3 else 0)
          else if c = CHR 0xE2 then
            (if take 2 r \<in> set
                 [[CHR 0x80, CHR 0x80], [CHR 0x80, CHR 0x81], [CHR 0x80, CHR 0x82],
                  [CHR 0x80, CHR 0x83], [CHR 0x80, CHR 0x84], [CHR 0x80, CHR 0x85],
                  [CHR 0x80, CHR 0x86], [CHR 0x80, CHR 0x87], [CHR 0x80, CHR 0x88],
                  [CHR 0x80, CHR 0x89], [CHR 0x80, CHR 0x8A], [CHR 0x80, CHR 0xA8],
                  [CHR 0x80, CHR 0xA9], [CHR 0x80, CHR 0xAF], [CHR 0x81, CHR 0x9F]]
             then 3 else 0)
          else if c = CHR 0xE3 then
            (if take 2 r = [CHR 0x80, CHR 0x80] then 3 else 0)
          else 0)"

text \<open>The width of the white-space rune that \<open>s\<close> ends with, 0 when it ends with none.\<close>

definition trailingSpaceWidth :: "string \<Rightarrow> nat" where
  "trailingSpaceWidth s =
     (if s \<noteq> [] \<and> isAsciiSpace (last s) then 1
      else if 2 \<le> length s \<and> spaceRuneWidth (drop (length s - 2) s) = 2 then 2
      else if 3 \<le> length s \<and> spaceRuneWidth (drop (length s - 3) s) = 3 then 3
      else 0)"

lemma take_eq_length_le: "take n r = xs \<Longrightarrow> length xs \<le> length r"
  by (induction r arbitrary: n xs) (auto simp: take_Cons split: nat.splits)

lemma spaceRuneWidth_le: "spaceRuneWidth s \<le> length s"
proof (cases s)
  case Nil
  then show ?thesis by (simp add: spaceRuneWidth_def)
next
  case (Cons c r)
  have one: "take 1 r = [x] \<Longrightarrow> 1 \<le> length r" for x
    using take_eq_length_le [of 1 r "[x]"] by simp
  have two: "take 2 r = [x, y] \<Longrightarrow> 2 \<le> length r" for x y
    using take_eq_length_le [of 2 r "[x, y]"] by simp
  have mem: "take 2 r \<in> set xss \<Longrightarrow> \<forall>xs \<in> set xss. length xs = 2 \<Longrightarrow> 2 \<le> length r" for xss
    using take_eq_length_le [of 2 r "take 2 r"] by (metis take_eq_length_le)
  show ?thesis
    unfolding Cons spaceRuneWidth_def list.case
    by (auto dest: one two dest!: mem)
qed

lemma trailingSpaceWidth_le: "trailingSpaceWidth s \<le> length s"
  by (cases s) (auto simp: trailingSpaceWidth_def)

function TrimLeft :: "string \<Rightarrow> string" where
  "TrimLeft s = (if spaceRuneWidth s = 0 then s else TrimLeft (drop (spaceRuneWidth s) s))"
  by pat_completeness auto
termination
proof (relation "measure length")
  fix s :: string
  assume "spaceRuneWidth s \<noteq> 0"
  moreover have "spaceRuneWidth s \<le> length s" by (rule spaceRuneWidth_le)
  ultimately show "(drop (spaceRuneWidth s) s, s) \<in> measure length" by simp
qed simp

function TrimRight :: "string \<Rightarrow> string" where
  "TrimRight s =
     (if trailingSpaceWidth s = 0 then s
      else TrimRight (take (length s - trailingSpaceWidth s) s))"
  by pat_completeness auto
termination
proof (relation "measure length")
  fix s :: string
  assume "trailingSpaceWidth s \<noteq> 0"
  moreover have "trailingSpaceWidth s \<le> length s" by (rule trailingSpaceWidth_le)
  ultimately show "(take (length s - trailingSpaceWidth s) s, s) \<in> measure length" by simp
qed simp

declare TrimLeft.simps [simp del] TrimRight.simps [simp del]

definition TrimSpace :: "string \<Rightarrow> string" where
  "TrimSpace s = TrimRight (TrimLeft s)"

text \<open>
  The byte index of the first white-space rune of \<open>s\<close>, as the loop
  \<^verbatim>\<open>for i, ch := range inner { if unicode.IsSpace(ch) { spaceIdx = i; break } }\<close> finds it.
  The loop steps over a rune that is not white space as a whole; its later bytes are
  continuation bytes, where no encoding of a white-space rune starts, so that a scan byte
  by byte stops at the same index.
\<close>

fun firstSpaceIndex :: "string \<Rightarrow> nat option" where
  "firstSpaceIndex [] = None"
| "firstSpaceIndex (c # r) =
     (if spaceRuneWidth (c # r) \<noteq> 0 then Some 0 else map_option Suc (firstSpaceIndex r))"

text \<open>\<^verbatim>\<open>strings.TrimPrefix(s, "<")\<close> and \<^verbatim>\<open>strings.HasSuffix\<close>, \<^verbatim>\<open>strings.TrimSuffix\<close> with \<^verbatim>\<open>"<"\<close>.\<close>

definition TrimPrefixLt :: "string \<Rightarrow> string" where
  "TrimPrefixLt s = (case s of [] \<Rightarrow> [] | c # r \<Rightarrow> if c = CHR ''<'' then r else s)"

definition HasSuffixLt :: "string \<Rightarrow> bool" where
  "HasSuffixLt s = (s \<noteq> [] \<and> last s = CHR ''<'')"

definition TrimSuffixLt :: "string \<Rightarrow> string" where
  "TrimSuffixLt s = (if HasSuffixLt s then butlast s else s)"

text \<open>
  The first element of \<^verbatim>\<open>strings.Fields(s)\<close>, \<^term>\<open>None\<close> when \<open>s\<close> has no field.
\<close>

definition FieldsFirst :: "string \<Rightarrow> string option" where
  "FieldsFirst s =
     (let s' = TrimLeft s in
      if s' = [] then None
      else (case firstSpaceIndex s' of None \<Rightarrow> Some s' | Some i \<Rightarrow> Some (take i s')))"

text \<open>\<^verbatim>\<open>strings.Index(s, sub)\<close>: the first index at which \<open>sub\<close> occurs in \<open>s\<close>; Go's -1 is \<^term>\<open>None\<close>.\<close>

fun Index :: "string \<Rightarrow> string \<Rightarrow> nat option" where
  "Index [] sub = (if sub = [] then Some 0 else None)"
| "Index (c # r) sub =
     (if take (length sub) (c # r) = sub then Some 0 else map_option Suc (Index r sub))"

section \<open>Tokens\<close>

datatype TokenType =
    TokenText
  | TokenOpenBracket
  | TokenCloseBracket
  | TokenSlash
  | TokenElementName
  | TokenAttributeName
  | TokenEquals
  | TokenAttributeValue
  | TokenIncomplete

text \<open>
  A token is a span \<open>[Start, End)\<close> of byte offsets into the tokenizer's buffer. Offsets are
  never negative in the code, so they are natural numbers.
\<close>

record Token =
  Type :: TokenType
  Start :: nat
  End :: nat
  Complete :: bool

section \<open>The tokenizer\<close>

text \<open>
  The fields of \<^verbatim>\<open>StreamXmlTokenizer\<close>. The two \<^verbatim>\<open>strings.Builder\<close> fields are strings;
  the map \<^verbatim>\<open>allowedElements\<close> only ever maps names to \<^verbatim>\<open>true\<close>, so it is the set of its
  keys, and \<^term>\<open>None\<close> when the map is nil. The last field, \<open>maxBufferSize\<close>, belongs to
  the two definitions below that are modelled from the spec.
\<close>

record StreamXmlTokenizer =
  buffer :: string
  position :: nat
  allowedElements :: "string set option"
  consumed :: nat
  inTag :: bool
  tagStartPos :: nat
  tagBuffer :: string
  textBuffer :: string
  textStartPos :: nat
  pendingTokens :: "Token list"
  pendingIndex :: nat
  incompleteReturned :: bool
  maxBufferSize :: int

text \<open>
  Modelled from the spec: the constructor \<^verbatim>\<open>NewStreamXmlTokenizerWithConfig\<close>, which the
  parser calls and the tokenizer source at hand does not have. It is the constructor
  \<^verbatim>\<open>NewStreamXmlTokenizer\<close> of the source, and keeps the configured maximal buffer size.
  The spec describes no compaction of the buffer, so the cleanup threshold is not used.
\<close>

definition NewStreamXmlTokenizerWithConfig :: "ParserConfig \<Rightarrow> StreamXmlTokenizer" where
  "NewStreamXmlTokenizerWithConfig cfg =
     \<lparr>buffer = [], position = 0, allowedElements = None, consumed = 0, inTag = False,
      tagStartPos = 0, tagBuffer = [], textBuffer = [], textStartPos = 0,
      pendingTokens = [], pendingIndex = 0, incompleteReturned = False,
      maxBufferSize = MaxBufferSize cfg\<rparr>"

definition NewStreamXmlTokenizer :: StreamXmlTokenizer where
  "NewStreamXmlTokenizer = NewStreamXmlTokenizerWithConfig DefaultConfig"

definition SetAllowedElements :: "StreamXmlTokenizer \<Rightarrow> string list option \<Rightarrow> StreamXmlTokenizer" where
  "SetAllowedElements t elements =
     (case elements of
        None \<Rightarrow> t\<lparr>allowedElements := None\<rparr>
      | Some es \<Rightarrow> t\<lparr>allowedElements := Some (set es)\<rparr>)"

text \<open>
  Modelled from the spec: the error result of the tokenizer's \<^verbatim>\<open>Append\<close>. The parser
  tests the error that \<^verbatim>\<open>p.tokenizer.Append(data)\<close> returns; the \<^verbatim>\<open>Append\<close> of the tokenizer
  source at hand returns nothing, and only appends the data and clears
  \<^verbatim>\<open>incompleteReturned\<close>. The spec has \<open>MaxBufferSizeExceeded\<close> when "total buffered bytes
  would exceed the configured limit".
\<close>

definition Append_t :: "StreamXmlTokenizer \<Rightarrow> string \<Rightarrow> error option \<times> StreamXmlTokenizer" where
  "Append_t t data =
     (if int (length (buffer t) + length data) > maxBufferSize t
      then (Some ErrMaxBufferSizeExceeded, t)
      else (None, t\<lparr>buffer := buffer t @ data, incompleteReturned := False\<rparr>))"

definition GetBuffer :: "StreamXmlTokenizer \<Rightarrow> string" where
  "GetBuffer t = buffer t"

subsection \<open>Attributes of a complete tag\<close>

definition mkToken :: "TokenType \<Rightarrow> nat \<Rightarrow> nat \<Rightarrow> Token" where
  "mkToken ty s e = \<lparr>Type = ty, Start = s, End = e, Complete = True\<rparr>"

text \<open>
  \<^verbatim>\<open>parseAndEmitAttributes\<close>. The source walks \<^verbatim>\<open>attrStr\<close> with an index \<open>i\<close> and moves
  \<open>currentPos\<close> along with it; here the first argument is the part of \<^verbatim>\<open>attrStr\<close> from \<open>i\<close>
  on, and the last one the tokens appended to \<^verbatim>\<open>pendingTokens\<close> so far. Every \<^verbatim>\<open>break\<close>
  of the source returns the tokens emitted up to there.
\<close>

definition isNameByte :: "char \<Rightarrow> bool" where
  "isNameByte c = (c \<noteq> CHR ''='' \<and> \<not> isSpaceByte c)"

function parseAndEmitAttributes :: "string \<Rightarrow> nat \<Rightarrow> Token list \<Rightarrow> Token list" where
  "parseAndEmitAttributes s currentPos toks =
     (if s = [] then toks
      else
        let s1 = dropWhile isSpaceByte s;
            cp1 = currentPos + length (takeWhile isSpaceByte s)
        in if s1 = [] then toks
        else
          let nameLen = length (takeWhile isNameByte s1);
              s2 = dropWhile isNameByte s1
          in if s2 = [] then toks
          else
            let toks1 = toks @ [mkToken TokenAttributeName cp1 (cp1 + nameLen)];
                cp2 = cp1 + nameLen;
                s3 = dropWhile isSpaceByte s2;
                cp3 = cp2 + length (takeWhile isSpaceByte s2)
            in if s3 = [] \<or> hd s3 \<noteq> CHR ''='' then toks1
            else
              let toks2 = toks1 @ [mkToken TokenEquals cp3 (cp3 + 1)];
                  s4 = tl s3;
                  cp4 = cp3 + 1;
                  s5 = dropWhile isSpaceByte s4;
                  cp5 = cp4 + length (takeWhile isSpaceByte s4)
              in if s5 = [] then toks2
              else if hd s5 = CHR 0x22 \<or> hd s5 = CHR 0x27 then
                let quote = hd s5;
                    s6 = tl s5;
                    cp6 = cp5 + 1;
                    valueLen = length (takeWhile (\<lambda>c. c \<noteq> quote) s6);
                    s7 = dropWhile (\<lambda>c. c \<noteq> quote) s6;
                    toks3 = toks2 @ [mkToken TokenAttributeValue cp6 (cp6 + valueLen)];
                    cp7 = cp6 + valueLen
                in if s7 \<noteq> [] then parseAndEmitAttributes (tl s7) (cp7 + 1) toks3
                   else parseAndEmitAttributes s7 cp7 toks3
              else
                let valueLen = length (takeWhile (\<lambda>c. \<not> isSpaceByte c) s5);
                    s6 = dropWhile (\<lambda>c. \<not> isSpaceByte c) s5;
                    toks3 = toks2 @ [mkToken TokenAttributeValue cp5 (cp5 + valueLen)]
                in parseAndEmitAttributes s6 (cp5 + valueLen) toks3)"
  by pat_completeness auto

lemma length_tl_less: "xs \<noteq> [] \<Longrightarrow> length (tl xs) < length xs"
  by (cases xs) auto

termination parseAndEmitAttributes
proof (relation "measure (\<lambda>(s, _, _). length s)", goal_cases)
  case 1
  show ?case by simp
next
  case (2 s currentPos toks s1 cp1 nameLen s2 toks1 cp2 s3 cp3 toks2 s4 cp4 s5 cp5
          quote s6 cp6 valueLen s7 toks3 cp7)
  have e: "s1 = dropWhile isSpaceByte s" "s2 = dropWhile isNameByte s1"
    "s3 = dropWhile isSpaceByte s2" "s4 = tl s3" "s5 = dropWhile isSpaceByte s4"
    "s6 = tl s5" "s7 = dropWhile (\<lambda>c. c \<noteq> quote) s6"
    by fact+
  have n: "s7 \<noteq> []" "s5 \<noteq> []" by fact+
  have "length (tl s7) < length s7" using n(1) by (rule length_tl_less)
  moreover have "length s7 \<le> length s6" unfolding e(7) by (rule length_dropWhile_le)
  moreover have "length s6 < length s5" unfolding e(6) using n(2) by (rule length_tl_less)
  moreover have "length s5 \<le> length s4" unfolding e(5) by (rule length_dropWhile_le)
  moreover have "length s4 \<le> length s3" unfolding e(4) by simp
  moreover have "length s3 \<le> length s2" unfolding e(3) by (rule length_dropWhile_le)
  moreover have "length s2 \<le> length s1" unfolding e(2) by (rule length_dropWhile_le)
  moreover have "length s1 \<le> length s" unfolding e(1) by (rule length_dropWhile_le)
  ultimately show ?case by simp
next
  case (3 s currentPos toks s1 cp1 nameLen s2 toks1 cp2 s3 cp3 toks2 s4 cp4 s5 cp5
          quote s6 cp6 valueLen s7 toks3 cp7)
  have "s7 = []" "s \<noteq> []" using 3 by blast+
  then show ?case by simp
next
  case (4 s currentPos toks s1 cp1 nameLen s2 toks1 cp2 s3 cp3 toks2 s4 cp4 s5 cp5
          valueLen s6 toks3)
  have e: "s1 = dropWhile isSpaceByte s" "s2 = dropWhile isNameByte s1"
    "s3 = dropWhile isSpaceByte s2" "s4 = tl s3" "s5 = dropWhile isSpaceByte s4"
    "s6 = dropWhile (\<lambda>c. \<not> isSpaceByte c) s5"
    by fact+
  have n: "\<not> (s3 = [] \<or> hd s3 \<noteq> CHR ''='')" by fact
  have "length s6 \<le> length s5" unfolding e(6) by (rule length_dropWhile_le)
  moreover have "length s5 \<le> length s4" unfolding e(5) by (rule length_dropWhile_le)
  moreover have "length s4 < length s3" unfolding e(4) using n by (simp add: length_tl_less)
  moreover have "length s3 \<le> length s2" unfolding e(3) by (rule length_dropWhile_le)
  moreover have "length s2 \<le> length s1" unfolding e(2) by (rule length_dropWhile_le)
  moreover have "length s1 \<le> length s" unfolding e(1) by (rule length_dropWhile_le)
  ultimately show ?case by simp
qed

declare parseAndEmitAttributes.simps [simp del]

subsection \<open>A complete tag\<close>

text \<open>
  The first half of \<^verbatim>\<open>parseAndEmitTag\<close>, for a tag of at least two bytes: what the tag's
  text says about the tag. \<open>tagInner\<close> is \<^verbatim>\<open>inner\<close> after the two slashes are cut off and
  the white space is trimmed.
\<close>

definition tagIsClosing :: "string \<Rightarrow> bool" where
  "tagIsClosing tagContent =
     (let inner = take (length tagContent - 2) (drop 1 tagContent)
      in inner \<noteq> [] \<and> hd inner = CHR ''/'')"

definition tagInner0 :: "string \<Rightarrow> string" where
  "tagInner0 tagContent =
     (let inner = take (length tagContent - 2) (drop 1 tagContent)
      in if tagIsClosing tagContent then drop 1 inner else inner)"

definition tagIsSelfClosing :: "string \<Rightarrow> bool" where
  "tagIsSelfClosing tagContent =
     (let inner = tagInner0 tagContent in inner \<noteq> [] \<and> last inner = CHR ''/'')"

definition tagInner :: "string \<Rightarrow> string" where
  "tagInner tagContent =
     (let inner = tagInner0 tagContent
      in TrimSpace (if tagIsSelfClosing tagContent then butlast inner else inner))"

definition tagElementName :: "string \<Rightarrow> string" where
  "tagElementName tagContent =
     (let inner = tagInner tagContent
      in case firstSpaceIndex inner of Some spaceIdx \<Rightarrow> take spaceIdx inner | None \<Rightarrow> inner)"

definition tagRestOfTag :: "string \<Rightarrow> string" where
  "tagRestOfTag tagContent =
     (let inner = tagInner tagContent
      in case firstSpaceIndex inner of
           Some spaceIdx \<Rightarrow> TrimSpace (drop (spaceIdx + 1) inner)
         | None \<Rightarrow> [])"

text \<open>The test \<^verbatim>\<open>t.allowedElements != nil && !t.allowedElements[elementName]\<close>.\<close>

definition notAllowed :: "StreamXmlTokenizer \<Rightarrow> string \<Rightarrow> bool" where
  "notAllowed t elementName =
     (case allowedElements t of None \<Rightarrow> False | Some A \<Rightarrow> elementName \<notin> A)"

text \<open>The tokens of an allowed tag, in the order the second half of the function emits them.\<close>

definition tagTokensOf :: "nat \<Rightarrow> string \<Rightarrow> Token list" where
  "tagTokensOf tagStart tagContent =
     (let isClosing = tagIsClosing tagContent;
          elementName = tagElementName tagContent;
          restOfTag = tagRestOfTag tagContent;
          currentPos = tagStart;
          toks1 = [mkToken TokenOpenBracket currentPos (currentPos + 1)];
          currentPos1 = currentPos + 1;
          toks2 = (if isClosing then toks1 @ [mkToken TokenSlash currentPos1 (currentPos1 + 1)]
                   else toks1);
          currentPos2 = (if isClosing then currentPos1 + 1 else currentPos1);
          toks3 = toks2 @ [mkToken TokenElementName currentPos2 (currentPos2 + length elementName)];
          toks4 =
            (if restOfTag \<noteq> [] then
               let tagContentStart = (if isClosing then tagStart + 1 + 1 else tagStart + 1)
               in case Index (drop (tagContentStart - tagStart) tagContent) restOfTag of
                    Some attrStartInTag \<Rightarrow>
                      parseAndEmitAttributes restOfTag (tagContentStart + attrStartInTag) toks3
                  | None \<Rightarrow> toks3
             else toks3);
          toks5 =
            (if tagIsSelfClosing tagContent then
               let slashPos = tagStart + length tagContent - 2
               in toks4 @ [mkToken TokenSlash slashPos (slashPos + 1)]
             else toks4);
          closeBracketPos = tagStart + length tagContent - 1
      in toks5 @ [mkToken TokenCloseBracket closeBracketPos (closeBracketPos + 1)])"

definition parseAndEmitTag :: "StreamXmlTokenizer \<Rightarrow> string \<Rightarrow> StreamXmlTokenizer" where
  "parseAndEmitTag t tagContent =
     (if length tagContent < 2 then
        t\<lparr>pendingTokens := pendingTokens t @
             [mkToken TokenText (tagStartPos t) (tagStartPos t + length tagContent)]\<rparr>
      else if notAllowed t (tagElementName tagContent) then
        t\<lparr>pendingTokens := pendingTokens t @
             [mkToken TokenText (tagStartPos t) (tagStartPos t + length tagContent)]\<rparr>
      else t\<lparr>pendingTokens := pendingTokens t @ tagTokensOf (tagStartPos t) tagContent\<rparr>)"

subsection \<open>Scanning the buffer\<close>

text \<open>
  The loops of \<^verbatim>\<open>tryCompleteTag\<close> and \<^verbatim>\<open>processText\<close> read \<^verbatim>\<open>t.buffer[t.position]\<close> and
  move \<^verbatim>\<open>t.position\<close> forward while \<^verbatim>\<open>t.position < len(t.buffer)\<close>. The first argument of
  each loop function is the unread part of the buffer, \<open>drop (position t) (buffer t)\<close>.
\<close>

fun tryCompleteTag_loop :: "string \<Rightarrow> StreamXmlTokenizer \<Rightarrow> bool \<times> StreamXmlTokenizer" where
  "tryCompleteTag_loop [] t = (False, t)"
| "tryCompleteTag_loop (ch # rest) t =
     (let t1 = t\<lparr>tagBuffer := tagBuffer t @ [ch], position := position t + 1\<rparr>
      in if ch = CHR ''>'' then
           (let t2 = parseAndEmitTag t1 (tagBuffer t1)
            in (True, t2\<lparr>inTag := False, tagBuffer := [], consumed := position t2\<rparr>))
         else tryCompleteTag_loop rest t1)"

definition tryCompleteTag :: "StreamXmlTokenizer \<Rightarrow> bool \<times> StreamXmlTokenizer" where
  "tryCompleteTag t = tryCompleteTag_loop (drop (position t) (buffer t)) t"

fun processText_loop :: "string \<Rightarrow> StreamXmlTokenizer \<Rightarrow> Token option \<times> StreamXmlTokenizer" where
  "processText_loop [] t = (None, t)"
| "processText_loop (ch # rest) t =
     (if ch = CHR ''<'' then
        (let token = (if textBuffer t \<noteq> []
                      then Some (mkToken TokenText (textStartPos t) (position t)) else None);
             t1 = (if textBuffer t \<noteq> [] then t\<lparr>textBuffer := []\<rparr> else t)
         in (token, t1\<lparr>inTag := True, tagStartPos := position t1, tagBuffer := []\<rparr>))
      else
        (let t1 = (if textBuffer t = [] then t\<lparr>textStartPos := position t\<rparr> else t)
         in processText_loop rest
              (t1\<lparr>textBuffer := textBuffer t1 @ [ch], position := position t1 + 1\<rparr>)))"

definition processText :: "StreamXmlTokenizer \<Rightarrow> Token option \<times> StreamXmlTokenizer" where
  "processText t = processText_loop (drop (position t) (buffer t)) t"

text \<open>Taking the next pending token, and clearing the queue once it is used up.\<close>

definition popPending :: "StreamXmlTokenizer \<Rightarrow> Token option \<times> StreamXmlTokenizer" where
  "popPending t =
     (let token = pendingTokens t ! pendingIndex t;
          t1 = t\<lparr>pendingIndex := pendingIndex t + 1\<rparr>
      in (Some token,
          if pendingIndex t1 \<ge> length (pendingTokens t1)
          then t1\<lparr>pendingTokens := [], pendingIndex := 0\<rparr> else t1))"

subsection \<open>How far the scanning loops move\<close>

lemma parseAndEmitTag_frame [simp]:
  "buffer (parseAndEmitTag t c) = buffer t"
  "position (parseAndEmitTag t c) = position t"
  "maxBufferSize (parseAndEmitTag t c) = maxBufferSize t"
  "allowedElements (parseAndEmitTag t c) = allowedElements t"
  by (simp_all add: parseAndEmitTag_def)

lemma tryCompleteTag_loop_buffer:
  "tryCompleteTag_loop s t = (b, t') \<Longrightarrow>
     buffer t' = buffer t \<and> maxBufferSize t' = maxBufferSize t \<and>
     allowedElements t' = allowedElements t"
  by (induction s arbitrary: t) (auto simp: Let_def split: if_splits)

lemma tryCompleteTag_loop_position:
  "tryCompleteTag_loop s t = (b, t') \<Longrightarrow>
     position t \<le> position t' \<and> position t' \<le> position t + length s \<and>
     (s \<noteq> [] \<longrightarrow> position t < position t')"
proof (induction s arbitrary: t)
  case Nil
  then show ?case by simp
next
  case (Cons ch rest)
  show ?case
  proof (cases "ch = CHR ''>''")
    case True
    with Cons.prems show ?thesis by (auto simp: Let_def)
  next
    case False
    with Cons.prems have
      "tryCompleteTag_loop rest (t\<lparr>tagBuffer := tagBuffer t @ [ch], position := position t + 1\<rparr>) = (b, t')"
      by (simp add: Let_def)
    from Cons.IH [OF this] show ?thesis by simp
  qed
qed

lemma processText_loop_buffer:
  "processText_loop s t = (r, t') \<Longrightarrow>
     buffer t' = buffer t \<and> maxBufferSize t' = maxBufferSize t \<and>
     allowedElements t' = allowedElements t \<and> pendingTokens t' = pendingTokens t \<and>
     pendingIndex t' = pendingIndex t"
  by (induction s arbitrary: t) (auto simp: Let_def split: if_splits)

lemma processText_loop_position:
  "processText_loop s t = (r, t') \<Longrightarrow>
     position t \<le> position t' \<and> position t' \<le> position t + length s"
proof (induction s arbitrary: t)
  case Nil
  then show ?case by simp
next
  case (Cons ch rest)
  show ?case
  proof (cases "ch = CHR ''<''")
    case True
    with Cons.prems show ?thesis by (auto simp: Let_def split: if_splits)
  next
    case False
    let ?t1 = "if textBuffer t = [] then t\<lparr>textStartPos := position t\<rparr> else t"
    let ?t2 = "?t1\<lparr>textBuffer := textBuffer ?t1 @ [ch], position := position ?t1 + 1\<rparr>"
    from False Cons.prems have "processText_loop rest ?t2 = (r, t')"
      by (simp add: Let_def)
    from Cons.IH [OF this] show ?thesis by (simp split: if_splits)
  qed
qed

lemma processText_loop_progress:
  "processText_loop s t = (None, t') \<Longrightarrow> s \<noteq> [] \<Longrightarrow> \<not> inTag t \<Longrightarrow>
     position t < position t' \<or> (position t' = position t \<and> inTag t')"
proof (cases s)
  case Nil
  assume "s \<noteq> []"
  with Nil show ?thesis by simp
next
  case (Cons ch rest)
  assume r: "processText_loop s t = (None, t')"
  show ?thesis
  proof (cases "ch = CHR ''<''")
    case True
    with r Cons show ?thesis by (auto simp: Let_def split: if_splits)
  next
    case False
    let ?t1 = "if textBuffer t = [] then t\<lparr>textStartPos := position t\<rparr> else t"
    let ?t2 = "?t1\<lparr>textBuffer := textBuffer ?t1 @ [ch], position := position ?t1 + 1\<rparr>"
    from False r Cons have "processText_loop rest ?t2 = (None, t')"
      by (simp add: Let_def)
    from processText_loop_position [OF this] show ?thesis by (simp split: if_splits)
  qed
qed

subsection \<open>The next token\<close>

text \<open>
  The loop \<^verbatim>\<open>for t.position < len(t.buffer)\<close> of \<^verbatim>\<open>NextToken\<close>. It returns a token from
  inside the loop, or leaves the loop (at the end of the buffer, or by the \<^verbatim>\<open>break\<close> on
  an unfinished tag) with \<^term>\<open>None\<close>.
\<close>

function NextToken_loop :: "StreamXmlTokenizer \<Rightarrow> Token option \<times> StreamXmlTokenizer" where
  "NextToken_loop t =
     (if position t < length (buffer t) then
        (if inTag t then
           (case tryCompleteTag t of
              (True, t1) \<Rightarrow>
                if pendingIndex t1 < length (pendingTokens t1) then popPending t1
                else NextToken_loop t1
            | (False, t1) \<Rightarrow> (None, t1))
         else
           (case processText t of
              (Some token, t1) \<Rightarrow> (Some token, t1)
            | (None, t1) \<Rightarrow> NextToken_loop t1))
      else (None, t))"
  by pat_completeness auto

definition scanMeasure :: "StreamXmlTokenizer \<Rightarrow> nat" where
  "scanMeasure t = 2 * (length (buffer t) - position t) + (if inTag t then 0 else 1)"

termination NextToken_loop
proof (relation "measure scanMeasure", goal_cases)
  case 1
  show ?case by simp
next
  case (2 t x t1)
  then have r: "tryCompleteTag_loop (drop (position t) (buffer t)) t = (True, t1)"
    by (simp add: tryCompleteTag_def)
  from 2 have ne: "drop (position t) (buffer t) \<noteq> []" by simp
  from tryCompleteTag_loop_buffer [OF r] tryCompleteTag_loop_position [OF r] ne 2(1)
  show ?case by (auto simp: scanMeasure_def)
next
  case (3 t x t1)
  then have r: "processText_loop (drop (position t) (buffer t)) t = (None, t1)"
    by (simp add: processText_def)
  from 3 have ne: "drop (position t) (buffer t) \<noteq> []" by simp
  from processText_loop_buffer [OF r] processText_loop_position [OF r]
    processText_loop_progress [OF r ne] 3(1,2)
  show ?case by (auto simp: scanMeasure_def)
qed

declare NextToken_loop.simps [simp del]

definition NextToken :: "StreamXmlTokenizer \<Rightarrow> Token option \<times> StreamXmlTokenizer" where
  "NextToken t =
     (if pendingIndex t < length (pendingTokens t) then popPending t
      else
        (case NextToken_loop t of
           (Some token, t1) \<Rightarrow> (Some token, t1)
         | (None, t1) \<Rightarrow>
             if textBuffer t1 \<noteq> [] \<and> \<not> inTag t1 then
               (Some (mkToken TokenText (textStartPos t1) (position t1)), t1\<lparr>textBuffer := []\<rparr>)
             else if inTag t1 \<and> tagBuffer t1 \<noteq> [] \<and> \<not> incompleteReturned t1 then
               (Some \<lparr>Type = TokenIncomplete, Start = tagStartPos t1, End = position t1,
                      Complete = False\<rparr>,
                t1\<lparr>incompleteReturned := True\<rparr>)
             else (None, t1)))"

section \<open>The parser\<close>

text \<open>
  \<^verbatim>\<open>XmlNode\<close> values are shared through pointers: the document tree, the stack of open
  elements and \<^verbatim>\<open>currentPartialNode\<close> may all point to one node, which the parser updates
  in place. The model keeps the nodes in a store, the list \<open>heap\<close>; a pointer is an index
  into it, a new node is appended, and a nil pointer is \<^term>\<open>None\<close>. The Go map of
  attributes is a partial function.
\<close>

datatype ASTNodeType = ASTNodeText | ASTNodeXml

record XmlNode =
  Name :: string
  Attributes :: "string \<rightharpoonup> string"
  Content :: string
  Partial :: bool
  StartPos :: nat
  EndPos :: nat

record ASTNode =
  NodeType :: ASTNodeType
  Text :: string
  XmlNodeRef :: "nat option"
  Position :: nat

record StreamXmlParser =
  tokenizer :: StreamXmlTokenizer
  astNodes :: "ASTNode list"
  xmlStack :: "nat list"
  textParts :: "string list"
  currentContent :: string
  depth :: int
  config :: ParserConfig
  collectingTag :: bool
  tagTokens :: "Token list"
  tagStartPosP :: nat
  currentPartialNode :: "nat option"
  partialNodeIndex :: int
  heap :: "XmlNode list"

definition NewStreamXmlParserWithConfig :: "ParserConfig \<Rightarrow> StreamXmlParser" where
  "NewStreamXmlParserWithConfig cfg =
     (let config = (if Validate cfg \<noteq> None then DefaultConfig else cfg);
          parser =
            \<lparr>tokenizer = NewStreamXmlTokenizerWithConfig config,
             astNodes = [], xmlStack = [], textParts = [], currentContent = [], depth = 0,
             config = config, collectingTag = False, tagTokens = [], tagStartPosP = 0,
             currentPartialNode = None, partialNodeIndex = - 1, heap = []\<rparr>
      in if AllowedElements config \<noteq> None
         then parser\<lparr>tokenizer := SetAllowedElements (tokenizer parser) (AllowedElements config)\<rparr>
         else parser)"

definition NewStreamXmlParser :: StreamXmlParser where
  "NewStreamXmlParser = NewStreamXmlParserWithConfig DefaultConfig"

text \<open>
  \<^verbatim>\<open>getValue\<close>: the bytes of the buffer that a token spans. Every token of the tokenizer has
  \<open>Start \<le> End\<close>, so the slice expression of the source is in range whenever the test
  \<^verbatim>\<open>token.End <= len(buffer)\<close> holds.
\<close>

definition getValue :: "StreamXmlParser \<Rightarrow> Token \<Rightarrow> string" where
  "getValue p token =
     (let buffer = GetBuffer (tokenizer p)
      in if End token \<le> length buffer
         then take (End token - Start token) (drop (Start token) buffer) else [])"

definition extractPartialTagName :: "string \<Rightarrow> string" where
  "extractPartialTagName tagValue =
     (if length tagValue < 2 then []
      else
        let content = TrimSpace (TrimPrefixLt tagValue)
        in case FieldsFirst content of Some part \<Rightarrow> part | None \<Rightarrow> content)"

definition isClosingTagFragment :: "string \<Rightarrow> bool" where
  "isClosingTagFragment v =
     (if length v = 0 then False
      else if length v \<ge> 2 \<and> v ! 0 = CHR ''<'' \<and> v ! 1 = CHR ''/'' then True
      else False)"

text \<open>\<^verbatim>\<open>reconstructTag\<close>: the text each collected token contributes, one after the other.\<close>

definition tokenText :: "TokenType \<Rightarrow> string \<Rightarrow> string" where
  "tokenText ty v =
     (case ty of
        TokenOpenBracket \<Rightarrow> ''<''
      | TokenCloseBracket \<Rightarrow> ''>''
      | TokenSlash \<Rightarrow> ''/''
      | TokenElementName \<Rightarrow> v
      | TokenAttributeName \<Rightarrow> '' '' @ v
      | TokenEquals \<Rightarrow> ''=''
      | TokenAttributeValue \<Rightarrow> [CHR 0x22] @ v @ [CHR 0x22]
      | _ \<Rightarrow> [])"

definition reconstructTag :: "StreamXmlParser \<Rightarrow> string" where
  "reconstructTag p = concat (map (\<lambda>token. tokenText (Type token) (getValue p token)) (tagTokens p))"

text \<open>
  The statement that recurs in the source after each write to \<^verbatim>\<open>currentContent\<close>:
  \<^verbatim>\<open>if len(p.xmlStack) > 0 { p.xmlStack[len(p.xmlStack)-1].Content = p.currentContent.String() }\<close>.
\<close>

definition updateTopContent :: "StreamXmlParser \<Rightarrow> StreamXmlParser" where
  "updateTopContent p =
     (if xmlStack p \<noteq> [] then
        p\<lparr>heap := (heap p)[last (xmlStack p) :=
             (heap p ! last (xmlStack p))\<lparr>Content := currentContent p\<rparr>]\<rparr>
      else p)"

definition writeContent :: "StreamXmlParser \<Rightarrow> string \<Rightarrow> StreamXmlParser" where
  "writeContent p v = updateTopContent (p\<lparr>currentContent := currentContent p @ v\<rparr>)"

definition xmlASTNode :: "nat \<Rightarrow> nat \<Rightarrow> ASTNode" where
  "xmlASTNode r pos = \<lparr>NodeType = ASTNodeXml, Text = [], XmlNodeRef = Some r, Position = pos\<rparr>"

text \<open>
  The node that \<^verbatim>\<open>currentPartialNode\<close> tracks: the source tests
  \<^verbatim>\<open>p.currentPartialNode != nil && p.partialNodeIndex >= 0\<close> wherever it uses it.
\<close>

definition trackedPartialNode :: "StreamXmlParser \<Rightarrow> nat option" where
  "trackedPartialNode p = (if partialNodeIndex p \<ge> 0 then currentPartialNode p else None)"

subsection \<open>A complete tag of the parser\<close>

text \<open>
  The loop of \<^verbatim>\<open>processCompleteTag\<close> that reads the attributes, from index \<open>i\<close> of the
  collected tokens on; it returns the attribute map and \<^verbatim>\<open>isSelfClosing\<close>.
\<close>

function parseTagAttrs ::
  "StreamXmlParser \<Rightarrow> nat \<Rightarrow> (string \<rightharpoonup> string) \<Rightarrow> bool \<Rightarrow> (string \<rightharpoonup> string) \<times> bool" where
  "parseTagAttrs p i attributes isSelfClosing =
     (if i < length (tagTokens p) - 1 then
        (if Type (tagTokens p ! i) = TokenSlash then parseTagAttrs p (i + 1) attributes True
         else if Type (tagTokens p ! i) = TokenAttributeName then
           (let attrName = getValue p (tagTokens p ! i)
            in if i + 1 < length (tagTokens p) \<and> Type (tagTokens p ! (i + 1)) = TokenEquals then
                 (if i + 2 < length (tagTokens p) \<and>
                     Type (tagTokens p ! (i + 2)) = TokenAttributeValue
                  then parseTagAttrs p (i + 3)
                         (attributes(attrName \<mapsto> getValue p (tagTokens p ! (i + 2)))) isSelfClosing
                  else parseTagAttrs p (i + 2) attributes isSelfClosing)
               else parseTagAttrs p (i + 1) attributes isSelfClosing)
         else parseTagAttrs p (i + 1) attributes isSelfClosing)
      else (attributes, isSelfClosing))"
  by pat_completeness auto
termination
  by (relation "measure (\<lambda>(p, i, _, _). length (tagTokens p) - i)") auto

declare parseTagAttrs.simps [simp del]

text \<open>The three branches of \<^verbatim>\<open>processCompleteTag\<close>, by the kind of tag.\<close>

definition closingTag :: "StreamXmlParser \<Rightarrow> error option \<times> StreamXmlParser" where
  "closingTag p =
     (let p1 = (if depth p > 0 then p\<lparr>depth := depth p - 1\<rparr> else p)
      in if depth p1 = 0 \<and> xmlStack p1 \<noteq> [] then
           (let xmlNode = last (xmlStack p1);
                p2 = p1\<lparr>xmlStack := butlast (xmlStack p1)\<rparr>;
                p3 = p2\<lparr>heap := (heap p2)[xmlNode :=
                       (heap p2 ! xmlNode)\<lparr>Content := currentContent p2,
                          EndPos := tagStartPosP p2, Partial := False\<rparr>]\<rparr>;
                p4 = (if trackedPartialNode p3 = Some xmlNode
                      then p3\<lparr>currentPartialNode := None, partialNodeIndex := - 1\<rparr>
                      else p3\<lparr>astNodes := astNodes p3 @
                             [xmlASTNode xmlNode (StartPos (heap p3 ! xmlNode))]\<rparr>)
            in (None, p4\<lparr>currentContent := []\<rparr>))
         else if depth p1 > 0 then (None, writeContent p1 (reconstructTag p1))
         else (None, p1))"

definition newCompleteNode :: "StreamXmlParser \<Rightarrow> string \<Rightarrow> (string \<rightharpoonup> string) \<Rightarrow> StreamXmlParser" where
  "newCompleteNode p elementName attributes =
     p\<lparr>heap := heap p @
           [\<lparr>Name = elementName, Attributes = attributes, Content = [],
             Partial = False, StartPos = tagStartPosP p, EndPos = tagStartPosP p\<rparr>],
        astNodes := astNodes p @ [xmlASTNode (length (heap p)) (tagStartPosP p)]\<rparr>"

definition selfClosingTag ::
  "StreamXmlParser \<Rightarrow> string \<Rightarrow> (string \<rightharpoonup> string) \<Rightarrow> error option \<times> StreamXmlParser" where
  "selfClosingTag p elementName attributes =
     (if depth p = 0 then
        (case trackedPartialNode p of
           Some r \<Rightarrow>
             (None, p\<lparr>heap := (heap p)[r := (heap p ! r)\<lparr>Name := elementName,
                         Attributes := attributes, Partial := False,
                         EndPos := tagStartPosP p\<rparr>],
                       currentPartialNode := None, partialNodeIndex := - 1\<rparr>)
         | None \<Rightarrow> (None, newCompleteNode p elementName attributes))
      else (None, writeContent p (reconstructTag p)))"

definition checkMaxDepth :: "StreamXmlParser \<Rightarrow> error option \<times> StreamXmlParser" where
  "checkMaxDepth p = (if depth p > MaxDepth (config p) then (Some ErrMaxDepthExceeded, p) else (None, p))"

definition openNewNode ::
  "StreamXmlParser \<Rightarrow> string \<Rightarrow> (string \<rightharpoonup> string) \<Rightarrow> error option \<times> StreamXmlParser" where
  "openNewNode p elementName attributes =
     (let xmlNode = length (heap p);
          p1 = p\<lparr>heap := heap p @
                  [\<lparr>Name = elementName, Attributes = attributes, Content = [],
                    Partial = True, StartPos = tagStartPosP p, EndPos = 0\<rparr>]\<rparr>;
          p2 = p1\<lparr>astNodes := astNodes p1 @ [xmlASTNode xmlNode (tagStartPosP p1)]\<rparr>;
          p3 = p2\<lparr>currentPartialNode := Some xmlNode,
                  partialNodeIndex := int (length (astNodes p2)) - 1\<rparr>;
          p4 = p3\<lparr>xmlStack := xmlStack p3 @ [xmlNode], currentContent := [],
                  depth := depth p3 + 1\<rparr>
      in checkMaxDepth p4)"

definition openingTag ::
  "StreamXmlParser \<Rightarrow> string \<Rightarrow> (string \<rightharpoonup> string) \<Rightarrow> error option \<times> StreamXmlParser" where
  "openingTag p elementName attributes =
     (if depth p = 0 then
        (case trackedPartialNode p of
           Some r \<Rightarrow>
             (let p1 = p\<lparr>heap := (heap p)[r := (heap p ! r)\<lparr>Name := elementName,
                            Attributes := attributes\<rparr>]\<rparr>
              in if xmlStack p1 = [] \<or> last (xmlStack p1) \<noteq> r then
                   checkMaxDepth (p1\<lparr>xmlStack := xmlStack p1 @ [r], currentContent := [],
                                     depth := depth p1 + 1\<rparr>)
                 else (None, p1))
         | None \<Rightarrow> openNewNode p elementName attributes)
      else
        (let p1 = writeContent p (reconstructTag p)
         in checkMaxDepth (p1\<lparr>depth := depth p1 + 1\<rparr>)))"

definition processCompleteTag :: "StreamXmlParser \<Rightarrow> error option \<times> StreamXmlParser" where
  "processCompleteTag p =
     (if length (tagTokens p) < 3 then (None, p)
      else
        let isClosing = (Type (tagTokens p ! 1) = TokenSlash);
            i = (if isClosing then 2 else 1);
            hasName = (i < length (tagTokens p) \<and> Type (tagTokens p ! i) = TokenElementName);
            elementName = (if hasName then getValue p (tagTokens p ! i) else []);
            i1 = (if hasName then i + 1 else i);
            (attributes, isSelfClosing) = parseTagAttrs p i1 Map.empty False
        in if isClosing then closingTag p
           else if isSelfClosing then selfClosingTag p elementName attributes
           else openingTag p elementName attributes)"

subsection \<open>One token\<close>

definition processIncomplete :: "StreamXmlParser \<Rightarrow> Token \<Rightarrow> StreamXmlParser" where
  "processIncomplete p token =
     (if depth p = 0 then
        (let tagName = extractPartialTagName (getValue p token)
         in case trackedPartialNode p of
              Some r \<Rightarrow>
                if tagName \<noteq> [] \<and> tagName \<noteq> Name (heap p ! r)
                then p\<lparr>heap := (heap p)[r := (heap p ! r)\<lparr>Name := tagName\<rparr>]\<rparr>
                else p
            | None \<Rightarrow>
                (let xmlNode = length (heap p);
                     p1 = p\<lparr>heap := heap p @
                             [\<lparr>Name = tagName, Attributes = Map.empty, Content = [],
                               Partial = True, StartPos = Start token, EndPos = 0\<rparr>]\<rparr>;
                     p2 = p1\<lparr>astNodes := astNodes p1 @ [xmlASTNode xmlNode (Start token)]\<rparr>
                 in p2\<lparr>currentPartialNode := Some xmlNode,
                        partialNodeIndex := int (length (astNodes p2)) - 1\<rparr>))
      else
        (let v = getValue p token
         in if isClosingTagFragment v then
              (if HasSuffixLt (currentContent p)
               then updateTopContent (p\<lparr>currentContent := TrimSuffixLt (currentContent p)\<rparr>)
               else p)
            else writeContent p v))"

definition processToken :: "StreamXmlParser \<Rightarrow> Token \<Rightarrow> error option \<times> StreamXmlParser" where
  "processToken p token =
     (case Type token of
        TokenText \<Rightarrow>
          (let v = getValue p token
           in if depth p > 0 then (None, writeContent p v)
              else (None, p\<lparr>astNodes := astNodes p @
                               [\<lparr>NodeType = ASTNodeText, Text = v, XmlNodeRef = None,
                                 Position = Start token\<rparr>],
                             textParts := textParts p @ [v]\<rparr>))
      | TokenOpenBracket \<Rightarrow>
          (None, p\<lparr>collectingTag := True, tagTokens := [token], tagStartPosP := Start token\<rparr>)
      | TokenCloseBracket \<Rightarrow>
          (if collectingTag p then
             (case processCompleteTag (p\<lparr>tagTokens := tagTokens p @ [token]\<rparr>) of
                (Some err, p1) \<Rightarrow> (Some err, p1)
              | (None, p1) \<Rightarrow> (None, p1\<lparr>collectingTag := False, tagTokens := []\<rparr>))
           else (None, p))
      | TokenIncomplete \<Rightarrow>
          (if \<not> Complete token then (None, processIncomplete p token) else (None, p))
      | _ \<Rightarrow>
          (if collectingTag p then (None, p\<lparr>tagTokens := tagTokens p @ [token]\<rparr>) else (None, p)))"

subsection \<open>The tokenizer makes progress\<close>

text \<open>
  The loop of \<^verbatim>\<open>processNewTokens\<close> pulls tokens until \<^verbatim>\<open>NextToken\<close> returns nil. It ends
  because every call of \<^verbatim>\<open>NextToken\<close> that returns a token either moves the position
  forward, or uses up a pending token, a pending text or the one report of an unfinished tag.
\<close>

definition unread :: "StreamXmlTokenizer \<Rightarrow> nat" where
  "unread t = length (buffer t) - position t"

definition owed :: "StreamXmlTokenizer \<Rightarrow> nat" where
  "owed t =
     (length (pendingTokens t) - pendingIndex t)
     + (if textBuffer t \<noteq> [] \<and> \<not> inTag t then 1 else 0)
     + (if inTag t \<and> tagBuffer t \<noteq> [] \<and> \<not> incompleteReturned t then 1 else 0)
     + (if \<not> inTag t \<and> position t < length (buffer t) then 1 else 0)"

definition tokLess :: "StreamXmlTokenizer \<Rightarrow> StreamXmlTokenizer \<Rightarrow> bool" where
  "tokLess t' t =
     (buffer t' = buffer t \<and> (unread t' < unread t \<or> (unread t' = unread t \<and> owed t' < owed t)))"

definition tokLeq :: "StreamXmlTokenizer \<Rightarrow> StreamXmlTokenizer \<Rightarrow> bool" where
  "tokLeq t' t =
     (buffer t' = buffer t \<and> (unread t' < unread t \<or> (unread t' = unread t \<and> owed t' \<le> owed t)))"

lemma tokLess_imp_tokLeq: "tokLess t' t \<Longrightarrow> tokLeq t' t"
  by (auto simp: tokLess_def tokLeq_def)

lemma tokLeq_refl: "tokLeq t t"
  by (simp add: tokLeq_def)

lemma tokLeq_tokLess_trans: "tokLeq t'' t' \<Longrightarrow> tokLess t' t \<Longrightarrow> tokLess t'' t"
  by (auto simp: tokLess_def tokLeq_def)

lemma tokLess_tokLeq_trans: "tokLess t'' t' \<Longrightarrow> tokLeq t' t \<Longrightarrow> tokLess t'' t"
  by (auto simp: tokLess_def tokLeq_def)

lemma unread_less:
  "buffer t' = buffer t \<Longrightarrow> position t < position t' \<Longrightarrow> position t < length (buffer t) \<Longrightarrow>
     tokLess t' t"
  by (auto simp: tokLess_def unread_def)

lemma popPending_frame:
  "popPending t = (r, t') \<Longrightarrow> buffer t' = buffer t \<and> position t' = position t"
  by (auto simp: popPending_def Let_def split: if_splits)

lemma popPending_less:
  assumes "pendingIndex t < length (pendingTokens t)" and "popPending t = (r, t')"
  shows "tokLess t' t"
proof (cases "pendingIndex t + 1 \<ge> length (pendingTokens t)")
  case True
  with assms have "t' = t\<lparr>pendingTokens := [], pendingIndex := 0\<rparr>"
    by (auto simp: popPending_def Let_def)
  with assms(1) show ?thesis by (simp add: tokLess_def unread_def owed_def)
next
  case False
  with assms have "t' = t\<lparr>pendingIndex := pendingIndex t + 1\<rparr>"
    by (auto simp: popPending_def Let_def)
  with assms(1) False show ?thesis by (simp add: tokLess_def unread_def owed_def)
qed

lemma tryCompleteTag_less:
  assumes "tryCompleteTag t = (b, t1)" and "position t < length (buffer t)"
  shows "tokLess t1 t"
proof -
  from assms have r: "tryCompleteTag_loop (drop (position t) (buffer t)) t = (b, t1)"
    by (simp add: tryCompleteTag_def)
  from assms have "drop (position t) (buffer t) \<noteq> []" by simp
  with tryCompleteTag_loop_buffer [OF r] tryCompleteTag_loop_position [OF r] assms(2)
  show ?thesis by (intro unread_less) auto
qed

lemma processText_loop_step:
  "processText_loop s t = (r, t') \<Longrightarrow> s \<noteq> [] \<Longrightarrow>
     position t < position t' \<or>
     (position t' = position t \<and> inTag t' \<and> tagBuffer t' = [] \<and> textBuffer t' = [])"
proof (cases s)
  case Nil
  assume "s \<noteq> []"
  with Nil show ?thesis by simp
next
  case (Cons ch rest)
  assume r: "processText_loop s t = (r, t')"
  show ?thesis
  proof (cases "ch = CHR ''<''")
    case True
    with r Cons show ?thesis by (auto simp: Let_def split: if_splits)
  next
    case False
    let ?t1 = "if textBuffer t = [] then t\<lparr>textStartPos := position t\<rparr> else t"
    let ?t2 = "?t1\<lparr>textBuffer := textBuffer ?t1 @ [ch], position := position ?t1 + 1\<rparr>"
    from False r Cons have "processText_loop rest ?t2 = (r, t')"
      by (simp add: Let_def)
    from processText_loop_position [OF this] show ?thesis by (simp split: if_splits)
  qed
qed

lemma processText_less:
  assumes "processText t = (r, t1)" and "position t < length (buffer t)" and "\<not> inTag t"
  shows "tokLess t1 t"
proof -
  from assms have r: "processText_loop (drop (position t) (buffer t)) t = (r, t1)"
    by (simp add: processText_def)
  from assms have ne: "drop (position t) (buffer t) \<noteq> []" by simp
  note b = processText_loop_buffer [OF r]
  from processText_loop_step [OF r ne]
  show ?thesis
  proof
    assume "position t < position t1"
    with b assms(2) show ?thesis by (intro unread_less) auto
  next
    assume "position t1 = position t \<and> inTag t1 \<and> tagBuffer t1 = [] \<and> textBuffer t1 = []"
    with b assms(2,3) show ?thesis by (auto simp: tokLess_def unread_def owed_def)
  qed
qed

lemma NextToken_loop_progress:
  "pendingIndex t \<ge> length (pendingTokens t) \<Longrightarrow> NextToken_loop t = (r, t') \<Longrightarrow>
     tokLeq t' t \<and> (r \<noteq> None \<longrightarrow> tokLess t' t)"
proof (induction t rule: NextToken_loop.induct)
  case (1 t)
  note eq = NextToken_loop.simps [of t]
  show ?case
  proof (cases "position t < length (buffer t)")
    case False
    with 1(4) eq have "r = None" "t' = t" by auto
    then show ?thesis by (simp add: tokLeq_refl)
  next
    case pos: True
    show ?thesis
    proof (cases "inTag t")
      case True
      obtain b t1 where tc: "tryCompleteTag t = (b, t1)" by (cases "tryCompleteTag t")
      from tryCompleteTag_less [OF tc pos] have less1: "tokLess t1 t" .
      show ?thesis
      proof (cases b)
        case False
        with 1(4) eq pos True tc have "r = None" "t' = t1" by auto
        with less1 show ?thesis by (simp add: tokLess_imp_tokLeq)
      next
        case b: True
        show ?thesis
        proof (cases "pendingIndex t1 < length (pendingTokens t1)")
          case pend: True
          with 1(4) eq pos True tc b have pp: "popPending t1 = (r, t')" by auto
          from popPending_less [OF pend pp] less1 have "tokLess t' t"
            by (blast intro: tokLeq_tokLess_trans tokLess_imp_tokLeq)
          then show ?thesis by (simp add: tokLess_imp_tokLeq)
        next
          case pend: False
          with 1(4) eq pos True tc b have rec: "NextToken_loop t1 = (r, t')" by auto
          from pend have "length (pendingTokens t1) \<le> pendingIndex t1" by simp
          from b have bT: "b = True" by simp
          from "1.IH"(1) [OF pos True tc [symmetric] bT pend \<open>length (pendingTokens t1) \<le> pendingIndex t1\<close> rec]
          have "tokLeq t' t1" by simp
          from this less1 have "tokLess t' t" by (rule tokLeq_tokLess_trans)
          then show ?thesis by (simp add: tokLess_imp_tokLeq)
        qed
      qed
    next
      case False
      obtain x t1 where pt: "processText t = (x, t1)" by (cases "processText t")
      from processText_less [OF pt pos False] have less1: "tokLess t1 t" .
      show ?thesis
      proof (cases x)
        case (Some token)
        with 1(4) eq pos False pt have "t' = t1" by auto
        with less1 show ?thesis by (simp add: tokLess_imp_tokLeq)
      next
        case None
        with 1(4) eq pos False pt have rec: "NextToken_loop t1 = (r, t')" by auto
        from pt have "processText_loop (drop (position t) (buffer t)) t = (x, t1)"
          by (simp add: processText_def)
        from processText_loop_buffer [OF this] 1(3)
        have "length (pendingTokens t1) \<le> pendingIndex t1" by simp
        from "1.IH"(2) [OF pos False pt [symmetric] None this rec]
        have "tokLeq t' t1" by simp
        from this less1 have "tokLess t' t" by (rule tokLeq_tokLess_trans)
        then show ?thesis by (simp add: tokLess_imp_tokLeq)
      qed
    qed
  qed
qed

lemma NextToken_progress:
  assumes "NextToken t = (Some token, t')"
  shows "tokLess t' t"
proof (cases "pendingIndex t < length (pendingTokens t)")
  case True
  with assms have "popPending t = (Some token, t')" by (simp add: NextToken_def)
  from popPending_less [OF True this] show ?thesis .
next
  case False
  obtain r t1 where l: "NextToken_loop t = (r, t1)" by (cases "NextToken_loop t")
  from False have "length (pendingTokens t) \<le> pendingIndex t" by simp
  from NextToken_loop_progress [OF this l]
  have leq: "tokLeq t1 t" and less: "r \<noteq> None \<longrightarrow> tokLess t1 t" by simp_all
  show ?thesis
  proof (cases r)
    case (Some tok)
    with assms False l have "t' = t1" by (simp add: NextToken_def)
    with less Some show ?thesis by simp
  next
    case None
    have "tokLess t' t1"
    proof (cases "textBuffer t1 \<noteq> [] \<and> \<not> inTag t1")
      case True
      with assms False l None have "t' = t1\<lparr>textBuffer := []\<rparr>"
        by (auto simp: NextToken_def)
      with True show ?thesis by (simp add: tokLess_def unread_def owed_def)
    next
      case noText: False
      with assms False l None
      have c: "inTag t1 \<and> tagBuffer t1 \<noteq> [] \<and> \<not> incompleteReturned t1"
        by (auto simp: NextToken_def split: if_splits)
      with noText assms False l None have "t' = t1\<lparr>incompleteReturned := True\<rparr>"
        by (auto simp: NextToken_def)
      with c show ?thesis by (simp add: tokLess_def unread_def owed_def)
    qed
    then show ?thesis using leq by (rule tokLess_tokLeq_trans)
  qed
qed

subsection \<open>Appending data\<close>

lemma updateTopContent_tokenizer [simp]: "tokenizer (updateTopContent p) = tokenizer p"
  by (simp add: updateTopContent_def)

lemma writeContent_tokenizer [simp]: "tokenizer (writeContent p v) = tokenizer p"
  by (simp add: writeContent_def)

lemma checkMaxDepth_snd [simp]: "snd (checkMaxDepth p) = p"
  by (simp add: checkMaxDepth_def)

lemma closingTag_tokenizer [simp]: "tokenizer (snd (closingTag p)) = tokenizer p"
  by (simp add: closingTag_def Let_def)

lemma selfClosingTag_tokenizer [simp]: "tokenizer (snd (selfClosingTag p n a)) = tokenizer p"
  by (simp add: selfClosingTag_def newCompleteNode_def split: option.splits)

lemma openNewNode_tokenizer [simp]: "tokenizer (snd (openNewNode p n a)) = tokenizer p"
  by (simp add: openNewNode_def Let_def)

lemma openingTag_tokenizer [simp]: "tokenizer (snd (openingTag p n a)) = tokenizer p"
  by (simp add: openingTag_def Let_def split: option.splits)

lemma processCompleteTag_tokenizer [simp]: "tokenizer (snd (processCompleteTag p)) = tokenizer p"
  by (simp add: processCompleteTag_def Let_def split: prod.splits)

lemma processIncomplete_tokenizer [simp]: "tokenizer (processIncomplete p token) = tokenizer p"
  by (simp add: processIncomplete_def Let_def split: option.splits)

lemma processToken_tokenizer: "tokenizer (snd (processToken p token)) = tokenizer p"
proof -
  have "tokenizer (snd (processCompleteTag (p\<lparr>tagTokens := tagTokens p @ [token]\<rparr>))) = tokenizer p"
    by simp
  then show ?thesis
    by (cases "processCompleteTag (p\<lparr>tagTokens := tagTokens p @ [token]\<rparr>)")
       (auto simp: processToken_def Let_def split: TokenType.splits option.splits)
qed

text \<open>
  \<^verbatim>\<open>processNewTokens\<close>: pull tokens until none is left, and stop at the first error. The
  parser keeps the state it has reached when an error is returned.
\<close>

function processNewTokens :: "StreamXmlParser \<Rightarrow> error option \<times> StreamXmlParser" where
  "processNewTokens p =
     (case NextToken (tokenizer p) of
        (None, t1) \<Rightarrow> (None, p\<lparr>tokenizer := t1\<rparr>)
      | (Some token, t1) \<Rightarrow>
          (case processToken (p\<lparr>tokenizer := t1\<rparr>) token of
             (Some err, p1) \<Rightarrow> (Some err, p1)
           | (None, p1) \<Rightarrow> processNewTokens p1))"
  by pat_completeness auto
termination
proof (relation "measures [\<lambda>p. unread (tokenizer p), \<lambda>p. owed (tokenizer p)]", goal_cases)
  case 1
  show ?case by simp
next
  case (2 p x t1 token e p1)
  then have nt: "NextToken (tokenizer p) = (Some token, t1)" by simp
  from 2 have "p1 = snd (processToken (p\<lparr>tokenizer := t1\<rparr>) token)" by (metis snd_conv)
  then have "tokenizer p1 = t1" by (simp add: processToken_tokenizer)
  with NextToken_progress [OF nt] show ?case by (auto simp: tokLess_def)
qed

declare processNewTokens.simps [simp del]

definition Append :: "StreamXmlParser \<Rightarrow> string \<Rightarrow> error option \<times> StreamXmlParser" where
  "Append p data =
     (case Append_t (tokenizer p) data of
        (Some err, t1) \<Rightarrow> (Some err, p\<lparr>tokenizer := t1\<rparr>)
      | (None, t1) \<Rightarrow> processNewTokens (p\<lparr>tokenizer := t1\<rparr>))"

subsection \<open>Queries\<close>

definition GetText :: "StreamXmlParser \<Rightarrow> string" where
  "GetText p = concat (map Text (filter (\<lambda>node. NodeType node = ASTNodeText) (astNodes p)))"

text \<open>\<^verbatim>\<open>GetXmlNodes\<close> returns pointers; \<open>GetXmlNodeValues\<close> reads the nodes they point to.\<close>

definition GetXmlNodes :: "StreamXmlParser \<Rightarrow> nat list" where
  "GetXmlNodes p =
     map (\<lambda>node. the (XmlNodeRef node))
       (filter (\<lambda>node. NodeType node = ASTNodeXml \<and> XmlNodeRef node \<noteq> None) (astNodes p))"

definition GetXmlNodeValues :: "StreamXmlParser \<Rightarrow> XmlNode list" where
  "GetXmlNodeValues p = map (\<lambda>r. heap p ! r) (GetXmlNodes p)"

definition GetXmlNode :: "StreamXmlParser \<Rightarrow> nat option" where
  "GetXmlNode p = (case GetXmlNodes p of [] \<Rightarrow> None | r # _ \<Rightarrow> Some r)"

definition GetAST :: "StreamXmlParser \<Rightarrow> ASTNode list" where
  "GetAST p = astNodes p"

text \<open>Appending a list of chunks in order; the first error stops it.\<close>

fun AppendAll :: "StreamXmlParser \<Rightarrow> string list \<Rightarrow> error option \<times> StreamXmlParser" where
  "AppendAll p [] = (None, p)"
| "AppendAll p (c # cs) =
     (case Append p c of (Some err, p1) \<Rightarrow> (Some err, p1) | (None, p1) \<Rightarrow> AppendAll p1 cs)"

section \<open>The stack of open elements\<close>

definition SetAllowedElements_p :: "StreamXmlParser \<Rightarrow> string list option \<Rightarrow> StreamXmlParser" where
  "SetAllowedElements_p p elements = p\<lparr>tokenizer := SetAllowedElements (tokenizer p) elements\<rparr>"

text \<open>
  The states a caller can bring a parser into: a new parser, then any calls of
  \<^verbatim>\<open>Append\<close> and \<^verbatim>\<open>SetAllowedElements\<close>. A call of \<^verbatim>\<open>Append\<close> that returns an error leaves
  the parser in the state it has reached.
\<close>

inductive reachable :: "StreamXmlParser \<Rightarrow> bool" where
  new: "reachable (NewStreamXmlParserWithConfig cfg)"
| append: "reachable p \<Longrightarrow> reachable (snd (Append p data))"
| allow: "reachable p \<Longrightarrow> reachable (SetAllowedElements_p p elements)"

text \<open>
  Only an opening tag at depth 0 pushes a node, and it is the tracked partial node; every
  tag below it is folded into the content and only counted by \<open>depth\<close>.
\<close>

definition stackInv :: "StreamXmlParser \<Rightarrow> bool" where
  "stackInv p =
     (if depth p = 0 then xmlStack p = []
      else depth p > 0 \<and>
           (case trackedPartialNode p of Some r \<Rightarrow> xmlStack p = [r] | None \<Rightarrow> False))"

lemma stackInv_cong:
  "depth p' = depth p \<Longrightarrow> xmlStack p' = xmlStack p \<Longrightarrow>
   currentPartialNode p' = currentPartialNode p \<Longrightarrow> partialNodeIndex p' = partialNodeIndex p \<Longrightarrow>
   stackInv p' = stackInv p"
  unfolding stackInv_def trackedPartialNode_def by (simp split: option.splits)

lemma updateTopContent_frame [simp]:
  "depth (updateTopContent p) = depth p"
  "xmlStack (updateTopContent p) = xmlStack p"
  "currentPartialNode (updateTopContent p) = currentPartialNode p"
  "partialNodeIndex (updateTopContent p) = partialNodeIndex p"
  "astNodes (updateTopContent p) = astNodes p"
  "config (updateTopContent p) = config p"
  by (simp_all add: updateTopContent_def)

lemma writeContent_frame [simp]:
  "depth (writeContent p v) = depth p"
  "xmlStack (writeContent p v) = xmlStack p"
  "currentPartialNode (writeContent p v) = currentPartialNode p"
  "partialNodeIndex (writeContent p v) = partialNodeIndex p"
  "astNodes (writeContent p v) = astNodes p"
  "config (writeContent p v) = config p"
  by (simp_all add: writeContent_def)

lemma stackInv_writeContent [simp]: "stackInv (writeContent p v) = stackInv p"
  by (rule stackInv_cong) simp_all

lemma stackInv_updateTopContent [simp]: "stackInv (updateTopContent p) = stackInv p"
  by (rule stackInv_cong) simp_all

lemma closingTag_inv: "stackInv p \<Longrightarrow> stackInv (snd (closingTag p))"
  by (auto simp: closingTag_def stackInv_def trackedPartialNode_def Let_def
           split: if_splits option.splits)

lemma selfClosingTag_inv: "stackInv p \<Longrightarrow> stackInv (snd (selfClosingTag p n a))"
  by (auto simp: selfClosingTag_def newCompleteNode_def stackInv_def trackedPartialNode_def
           split: if_splits option.splits)

lemma openingTag_inv: "stackInv p \<Longrightarrow> stackInv (snd (openingTag p n a))"
  by (auto simp: openingTag_def openNewNode_def stackInv_def trackedPartialNode_def Let_def
           split: if_splits option.splits)

lemma processCompleteTag_inv: "stackInv p \<Longrightarrow> stackInv (snd (processCompleteTag p))"
  by (simp add: processCompleteTag_def Let_def closingTag_inv selfClosingTag_inv openingTag_inv
           split: prod.splits)

lemma processIncomplete_inv: "stackInv p \<Longrightarrow> stackInv (processIncomplete p token)"
  by (auto simp: processIncomplete_def stackInv_def trackedPartialNode_def Let_def
           split: if_splits option.splits)


lemma processToken_inv: "stackInv p \<Longrightarrow> stackInv (snd (processToken p token))"
proof (cases "Type token")
  case TokenText
  assume inv: "stackInv p"
  show ?thesis
  proof (cases "depth p > 0")
    case True
    with TokenText inv show ?thesis by (simp add: processToken_def Let_def)
  next
    case False
    have "stackInv (p\<lparr>astNodes := a, textParts := b\<rparr>) = stackInv p" for a b
      by (rule stackInv_cong) simp_all
    with False TokenText inv show ?thesis by (simp add: processToken_def Let_def)
  qed
next
  case TokenOpenBracket
  assume inv: "stackInv p"
  have "stackInv (p\<lparr>collectingTag := True, tagTokens := [token], tagStartPosP := Start token\<rparr>)
      = stackInv p"
    by (rule stackInv_cong) simp_all
  with inv TokenOpenBracket show ?thesis by (simp add: processToken_def)
next
  case TokenCloseBracket
  assume inv: "stackInv p"
  let ?q = "p\<lparr>tagTokens := tagTokens p @ [token]\<rparr>"
  have "stackInv ?q = stackInv p" by (rule stackInv_cong) simp_all
  with inv have "stackInv (snd (processCompleteTag ?q))" by (simp add: processCompleteTag_inv)
  moreover have "stackInv (snd (processCompleteTag ?q)\<lparr>collectingTag := False, tagTokens := []\<rparr>)
      = stackInv (snd (processCompleteTag ?q))"
    by (rule stackInv_cong) simp_all
  ultimately show ?thesis
    using inv TokenCloseBracket
    by (cases "processCompleteTag ?q") (auto simp: processToken_def split: option.splits)
next
  case TokenIncomplete
  then show "stackInv p \<Longrightarrow> ?thesis"
    by (simp add: processToken_def processIncomplete_inv)
next
  case TokenSlash
  assume inv: "stackInv p"
  have "stackInv (p\<lparr>tagTokens := tagTokens p @ [token]\<rparr>) = stackInv p"
    by (rule stackInv_cong) simp_all
  with inv TokenSlash show ?thesis by (simp add: processToken_def)
next
  case TokenElementName
  assume inv: "stackInv p"
  have "stackInv (p\<lparr>tagTokens := tagTokens p @ [token]\<rparr>) = stackInv p"
    by (rule stackInv_cong) simp_all
  with inv TokenElementName show ?thesis by (simp add: processToken_def)
next
  case TokenAttributeName
  assume inv: "stackInv p"
  have "stackInv (p\<lparr>tagTokens := tagTokens p @ [token]\<rparr>) = stackInv p"
    by (rule stackInv_cong) simp_all
  with inv TokenAttributeName show ?thesis by (simp add: processToken_def)
next
  case TokenEquals
  assume inv: "stackInv p"
  have "stackInv (p\<lparr>tagTokens := tagTokens p @ [token]\<rparr>) = stackInv p"
    by (rule stackInv_cong) simp_all
  with inv TokenEquals show ?thesis by (simp add: processToken_def)
next
  case TokenAttributeValue
  assume inv: "stackInv p"
  have "stackInv (p\<lparr>tagTokens := tagTokens p @ [token]\<rparr>) = stackInv p"
    by (rule stackInv_cong) simp_all
  with inv TokenAttributeValue show ?thesis by (simp add: processToken_def)
qed

lemma stackInv_tokenizer [simp]: "stackInv (p\<lparr>tokenizer := t\<rparr>) = stackInv p"
  by (rule stackInv_cong) simp_all

section \<open>A partial node is completed in place\<close>

text \<open>
  What a step keeps of a tracked partial node \<open>r\<close>: the pointers that \<^verbatim>\<open>GetXmlNodes\<close>
  returns, the number of nodes in the store, and the node itself, which is either still
  tracked or no longer partial.
\<close>

definition keepsNode :: "StreamXmlParser \<Rightarrow> nat \<Rightarrow> StreamXmlParser \<Rightarrow> bool" where
  "keepsNode p r p' =
     (GetXmlNodes p' = GetXmlNodes p \<and> length (heap p') = length (heap p) \<and>
      (trackedPartialNode p' = Some r \<or>
       (trackedPartialNode p' = None \<and> \<not> Partial (heap p' ! r))))"

lemma trackedPartialNode_update [simp]:
  "trackedPartialNode (p\<lparr>tokenizer := t\<rparr>) = trackedPartialNode p"
  "trackedPartialNode (p\<lparr>astNodes := an\<rparr>) = trackedPartialNode p"
  "trackedPartialNode (p\<lparr>xmlStack := st\<rparr>) = trackedPartialNode p"
  "trackedPartialNode (p\<lparr>textParts := tp\<rparr>) = trackedPartialNode p"
  "trackedPartialNode (p\<lparr>currentContent := cc\<rparr>) = trackedPartialNode p"
  "trackedPartialNode (p\<lparr>depth := d\<rparr>) = trackedPartialNode p"
  "trackedPartialNode (p\<lparr>collectingTag := ct\<rparr>) = trackedPartialNode p"
  "trackedPartialNode (p\<lparr>tagTokens := tt\<rparr>) = trackedPartialNode p"
  "trackedPartialNode (p\<lparr>tagStartPosP := ts\<rparr>) = trackedPartialNode p"
  "trackedPartialNode (p\<lparr>heap := h\<rparr>) = trackedPartialNode p"
  by (simp_all add: trackedPartialNode_def)

lemma trackedPartialNode_cleared [simp]:
  "trackedPartialNode (p\<lparr>currentPartialNode := None, partialNodeIndex := - 1\<rparr>) = None"
  by (simp add: trackedPartialNode_def)

lemma trackedPartialNode_content [simp]:
  "trackedPartialNode (updateTopContent p) = trackedPartialNode p"
  "trackedPartialNode (writeContent p v) = trackedPartialNode p"
  by (simp_all add: trackedPartialNode_def)

lemma stackInv_tracked:
  assumes "stackInv p" and "trackedPartialNode p = Some r"
  shows "(depth p = 0 \<and> xmlStack p = []) \<or> (depth p > 0 \<and> xmlStack p = [r])"
  using assms unfolding stackInv_def by (cases "depth p = 0") simp_all

lemma keepsNode_frame:
  assumes "astNodes p' = astNodes p" and "length (heap p') = length (heap p)"
    and "trackedPartialNode p' = trackedPartialNode p" and "trackedPartialNode p = Some r"
  shows "keepsNode p r p'"
  using assms by (simp add: keepsNode_def GetXmlNodes_def)

lemma updateTopContent_heap_length [simp]:
  "length (heap (updateTopContent p)) = length (heap p)"
  by (simp add: updateTopContent_def)

lemma writeContent_heap_length [simp]:
  "length (heap (writeContent p v)) = length (heap p)"
  by (simp add: writeContent_def)

lemma closingTag_keeps:
  assumes "stackInv p" and t: "trackedPartialNode p = Some r" and r: "r < length (heap p)"
  shows "keepsNode p r (snd (closingTag p))"
proof -
  from stackInv_tracked [OF assms(1) t]
  consider (top) "depth p = 0" "xmlStack p = []"
    | (last) "depth p = 1" "xmlStack p = [r]"
    | (nested) "depth p > 1" "xmlStack p = [r]"
    by (cases "depth p = 1") auto
  then show ?thesis
  proof cases
    case top
    then have "snd (closingTag p) = p" by (simp add: closingTag_def)
    with t show ?thesis by (simp add: keepsNode_frame)
  next
    case last
    with t r show ?thesis
      by (simp add: closingTag_def Let_def keepsNode_def GetXmlNodes_def)
  next
    case nested
    then have "snd (closingTag p) =
        writeContent (p\<lparr>depth := depth p - 1\<rparr>) (reconstructTag (p\<lparr>depth := depth p - 1\<rparr>))"
      by (simp add: closingTag_def Let_def)
    with t show ?thesis by (simp add: keepsNode_frame)
  qed
qed

lemma selfClosingTag_keeps:
  assumes t: "trackedPartialNode p = Some r" and r: "r < length (heap p)"
  shows "keepsNode p r (snd (selfClosingTag p n a))"
proof (cases "depth p = 0")
  case True
  with t r show ?thesis
    by (simp add: selfClosingTag_def keepsNode_def GetXmlNodes_def)
next
  case False
  then have "snd (selfClosingTag p n a) = writeContent p (reconstructTag p)"
    by (simp add: selfClosingTag_def)
  with t show ?thesis by (simp add: keepsNode_frame)
qed

lemma openingTag_keeps:
  assumes t: "trackedPartialNode p = Some r"
  shows "keepsNode p r (snd (openingTag p n a))"
proof (cases "depth p = 0")
  case True
  let ?p1 = "p\<lparr>heap := (heap p)[r := (heap p ! r)\<lparr>Name := n, Attributes := a\<rparr>]\<rparr>"
  show ?thesis
  proof (cases "xmlStack p = [] \<or> last (xmlStack p) \<noteq> r")
    case push: True
    with True t have "snd (openingTag p n a) =
        ?p1\<lparr>xmlStack := xmlStack p @ [r], currentContent := [], depth := depth p + 1\<rparr>"
      by (simp add: openingTag_def Let_def)
    with t show ?thesis by (simp add: keepsNode_frame)
  next
    case False
    with True t have "snd (openingTag p n a) = ?p1"
      by (simp add: openingTag_def Let_def)
    with t show ?thesis by (simp add: keepsNode_frame)
  qed
next
  case False
  then have "snd (openingTag p n a) =
      (writeContent p (reconstructTag p))\<lparr>depth := depth (writeContent p (reconstructTag p)) + 1\<rparr>"
    by (simp add: openingTag_def Let_def)
  with t show ?thesis by (simp add: keepsNode_frame)
qed

lemma processCompleteTag_keeps:
  assumes "stackInv p" and "trackedPartialNode p = Some r" and "r < length (heap p)"
  shows "keepsNode p r (snd (processCompleteTag p))"
  using assms
  by (simp add: processCompleteTag_def Let_def closingTag_keeps selfClosingTag_keeps
        openingTag_keeps keepsNode_frame split: prod.splits)

lemma processIncomplete_keeps:
  assumes t: "trackedPartialNode p = Some r"
  shows "keepsNode p r (processIncomplete p token)"
proof (cases "depth p = 0")
  case True
  with t show ?thesis
    by (simp add: processIncomplete_def Let_def keepsNode_frame)
next
  case False
  with t show ?thesis
    by (simp add: processIncomplete_def Let_def keepsNode_frame)
qed


text \<open>
  The pointers in the document tree: no node is in the tree twice, every pointer is a
  node of the store, and the tracked partial node is in the tree.
\<close>

definition nodesInv :: "StreamXmlParser \<Rightarrow> bool" where
  "nodesInv p =
     (distinct (GetXmlNodes p) \<and> list_all (\<lambda>r. r < length (heap p)) (GetXmlNodes p) \<and>
      (case trackedPartialNode p of Some r \<Rightarrow> r \<in> set (GetXmlNodes p) | None \<Rightarrow> True))"

lemma nodesInv_frame:
  assumes "astNodes p' = astNodes p" and "length (heap p') = length (heap p)"
    and "trackedPartialNode p' = trackedPartialNode p \<or> trackedPartialNode p' = None"
  shows "nodesInv p \<Longrightarrow> nodesInv p'"
proof -
  assume inv: "nodesInv p"
  from assms(1) have g: "GetXmlNodes p' = GetXmlNodes p" by (simp add: GetXmlNodes_def)
  from inv assms(2,3) show ?thesis unfolding nodesInv_def g by (auto split: option.splits)
qed

lemma keepsNode_nodesInv:
  "keepsNode p r p' \<Longrightarrow> trackedPartialNode p = Some r \<Longrightarrow> nodesInv p \<Longrightarrow> nodesInv p'"
  by (auto simp: keepsNode_def nodesInv_def)

lemma GetXmlNodes_snoc_xml:
  "GetXmlNodes (p\<lparr>astNodes := astNodes q @ [xmlASTNode r pos]\<rparr>) = GetXmlNodes q @ [r]"
  by (simp add: GetXmlNodes_def xmlASTNode_def)

lemma nodesInv_new_node:
  assumes "nodesInv p" and "astNodes p' = astNodes p @ [xmlASTNode (length (heap p)) pos]"
    and "length (heap p') = Suc (length (heap p))"
    and "trackedPartialNode p' = trackedPartialNode p \<or> trackedPartialNode p' = Some (length (heap p))"
  shows "nodesInv p'"
proof -
  from assms(2) have g: "GetXmlNodes p' = GetXmlNodes p @ [length (heap p)]"
    by (simp add: GetXmlNodes_def xmlASTNode_def)
  from assms(1) have d: "distinct (GetXmlNodes p)"
    and v: "\<forall>r \<in> set (GetXmlNodes p). r < length (heap p)"
    and t: "case trackedPartialNode p of Some r \<Rightarrow> r \<in> set (GetXmlNodes p) | None \<Rightarrow> True"
    by (simp_all add: nodesInv_def list_all_iff)
  from v have fresh: "length (heap p) \<notin> set (GetXmlNodes p)" by auto
  from v assms(3) have v': "\<forall>r \<in> set (GetXmlNodes p'). r < length (heap p')"
    unfolding g by auto
  from assms(4) t have "case trackedPartialNode p' of Some r \<Rightarrow> r \<in> set (GetXmlNodes p') | None \<Rightarrow> True"
    unfolding g by (auto split: option.splits)
  with d fresh v' show ?thesis unfolding nodesInv_def g by (simp add: list_all_iff)
qed

lemma closingTag_nodesInv:
  assumes "stackInv p" and "nodesInv p"
  shows "nodesInv (snd (closingTag p))"
proof (cases "trackedPartialNode p")
  case (Some r)
  with assms(2) have "r < length (heap p)" by (auto simp: nodesInv_def list_all_iff)
  from closingTag_keeps [OF assms(1) Some this] Some assms(2) show ?thesis
    by (rule keepsNode_nodesInv)
next
  case None
  with assms(1) have d: "depth p = 0" "xmlStack p = []"
    by (auto simp: stackInv_def split: if_splits)
  then have "snd (closingTag p) = p" by (simp add: closingTag_def)
  with assms(2) show ?thesis by simp
qed

lemma selfClosingTag_nodesInv:
  assumes "stackInv p" and "nodesInv p"
  shows "nodesInv (snd (selfClosingTag p n a))"
proof (cases "trackedPartialNode p")
  case (Some r)
  with assms(2) have "r < length (heap p)" by (auto simp: nodesInv_def list_all_iff)
  from selfClosingTag_keeps [OF Some this] Some assms(2) show ?thesis
    by (rule keepsNode_nodesInv)
next
  case None
  with assms(1) have d: "depth p = 0"
    by (auto simp: stackInv_def split: if_splits)
  with None have "snd (selfClosingTag p n a) = newCompleteNode p n a"
    by (simp add: selfClosingTag_def)
  moreover have "nodesInv (newCompleteNode p n a)"
    by (rule nodesInv_new_node [OF assms(2)]) (simp_all add: newCompleteNode_def trackedPartialNode_def)
  ultimately show ?thesis by simp
qed

lemma openingTag_nodesInv:
  assumes "stackInv p" and "nodesInv p"
  shows "nodesInv (snd (openingTag p n a))"
proof (cases "trackedPartialNode p")
  case (Some r)
  from openingTag_keeps [OF Some] Some assms(2) show ?thesis
    by (rule keepsNode_nodesInv)
next
  case None
  with assms(1) have d: "depth p = 0"
    by (auto simp: stackInv_def split: if_splits)
  with None have "snd (openingTag p n a) = snd (openNewNode p n a)"
    by (simp add: openingTag_def)
  moreover have "nodesInv (snd (openNewNode p n a))"
    by (rule nodesInv_new_node [OF assms(2)])
       (simp_all add: openNewNode_def Let_def trackedPartialNode_def)
  ultimately show ?thesis by simp
qed

lemma GetXmlNodes_tagTokens [simp]: "GetXmlNodes (p\<lparr>tagTokens := tt\<rparr>) = GetXmlNodes p"
  by (simp add: GetXmlNodes_def)

lemma nodesInv_tagTokens [simp]: "nodesInv (p\<lparr>tagTokens := tt\<rparr>) = nodesInv p"
  by (simp add: nodesInv_def split: option.splits)

lemma processCompleteTag_nodesInv:
  assumes "stackInv p" and "nodesInv p"
  shows "nodesInv (snd (processCompleteTag p))"
  using assms
  by (simp add: processCompleteTag_def Let_def closingTag_nodesInv selfClosingTag_nodesInv
        openingTag_nodesInv split: prod.splits)

lemma processIncomplete_nodesInv:
  assumes "nodesInv p"
  shows "nodesInv (processIncomplete p token)"
proof (cases "trackedPartialNode p")
  case (Some r)
  from processIncomplete_keeps [OF Some] Some assms show ?thesis
    by (rule keepsNode_nodesInv)
next
  case None
  show ?thesis
  proof (cases "depth p = 0")
    case True
    let ?n = "\<lparr>Name = extractPartialTagName (getValue p token), Attributes = Map.empty,
               Content = [], Partial = True, StartPos = Start token, EndPos = 0\<rparr>"
    from None True have e: "processIncomplete p token =
        p\<lparr>heap := heap p @ [?n],
          astNodes := astNodes p @ [xmlASTNode (length (heap p)) (Start token)],
          currentPartialNode := Some (length (heap p)),
          partialNodeIndex := int (length (astNodes p @ [xmlASTNode (length (heap p)) (Start token)])) - 1\<rparr>"
      by (simp add: processIncomplete_def Let_def)
    show ?thesis
      unfolding e
      by (rule nodesInv_new_node [OF assms]) (simp_all add: trackedPartialNode_def)
  next
    case False
    with None assms show ?thesis
      by (auto simp: processIncomplete_def Let_def intro: nodesInv_frame)
  qed
qed


definition parserInv :: "StreamXmlParser \<Rightarrow> bool" where
  "parserInv p = (stackInv p \<and> nodesInv p)"

lemma processToken_nodesInv:
  assumes "stackInv p" and "nodesInv p"
  shows "nodesInv (snd (processToken p token))"
proof (cases "Type token")
  case TokenText
  show ?thesis
  proof (cases "depth p > 0")
    case True
    with TokenText assms(2) show ?thesis
      by (auto simp: processToken_def Let_def intro: nodesInv_frame)
  next
    case False
    let ?t = "\<lparr>NodeType = ASTNodeText, Text = getValue p token, XmlNodeRef = None,
               Position = Start token\<rparr>"
    have g: "GetXmlNodes (p\<lparr>astNodes := astNodes p @ [?t], textParts := b\<rparr>) = GetXmlNodes p" for b
      by (simp add: GetXmlNodes_def)
    have "nodesInv (p\<lparr>astNodes := astNodes p @ [?t], textParts := b\<rparr>)" for b
      using assms(2) unfolding nodesInv_def g by (simp split: option.splits)
    with False TokenText show ?thesis by (simp add: processToken_def Let_def)
  qed
next
  case TokenOpenBracket
  have "nodesInv (p\<lparr>collectingTag := True, tagTokens := [token], tagStartPosP := Start token\<rparr>)"
    by (rule nodesInv_frame [OF _ _ _ assms(2)]) simp_all
  with TokenOpenBracket show ?thesis by (simp add: processToken_def)
next
  case TokenCloseBracket
  let ?q = "p\<lparr>tagTokens := tagTokens p @ [token]\<rparr>"
  have "stackInv ?q = stackInv p" by (rule stackInv_cong) simp_all
  with assms have n: "nodesInv (snd (processCompleteTag ?q))"
    by (simp add: processCompleteTag_nodesInv)
  have "nodesInv (snd (processCompleteTag ?q)\<lparr>collectingTag := False, tagTokens := []\<rparr>)"
    by (rule nodesInv_frame [OF _ _ _ n]) simp_all
  with n show ?thesis
    using assms(2) TokenCloseBracket
    by (cases "processCompleteTag ?q") (auto simp: processToken_def split: option.splits)
next
  case TokenIncomplete
  with assms(2) show ?thesis by (simp add: processToken_def processIncomplete_nodesInv)
next
  case TokenSlash
  with assms(2) show ?thesis by (simp add: processToken_def)
next
  case TokenElementName
  with assms(2) show ?thesis by (simp add: processToken_def)
next
  case TokenAttributeName
  with assms(2) show ?thesis by (simp add: processToken_def)
next
  case TokenEquals
  with assms(2) show ?thesis by (simp add: processToken_def)
next
  case TokenAttributeValue
  with assms(2) show ?thesis by (simp add: processToken_def)
qed

lemma parserInv_tokenizer [simp]: "parserInv (p\<lparr>tokenizer := t\<rparr>) = parserInv p"
proof -
  have "nodesInv (p\<lparr>tokenizer := t\<rparr>) = nodesInv p"
    by (simp add: nodesInv_def GetXmlNodes_def split: option.splits)
  then show ?thesis by (simp add: parserInv_def)
qed

lemma processToken_parserInv: "parserInv p \<Longrightarrow> parserInv (snd (processToken p token))"
  by (simp add: parserInv_def processToken_inv processToken_nodesInv)

lemma processNewTokens_parserInv: "parserInv p \<Longrightarrow> parserInv (snd (processNewTokens p))"
proof (induction p rule: processNewTokens.induct)
  case (1 p)
  obtain x t1 where nt: "NextToken (tokenizer p) = (x, t1)" by (cases "NextToken (tokenizer p)")
  show ?case
  proof (cases x)
    case None
    with nt 1(2) show ?thesis by (simp add: processNewTokens.simps [of p])
  next
    case (Some token)
    obtain e p1 where pt: "processToken (p\<lparr>tokenizer := t1\<rparr>) token = (e, p1)"
      by (cases "processToken (p\<lparr>tokenizer := t1\<rparr>) token")
    from 1(2) have "parserInv (snd (processToken (p\<lparr>tokenizer := t1\<rparr>) token))"
      by (intro processToken_parserInv) simp
    with pt have inv1: "parserInv p1" by simp
    show ?thesis
    proof (cases e)
      case None
      from "1.IH" [OF nt [symmetric] Some pt [symmetric] None inv1]
      show ?thesis using nt Some pt None by (simp add: processNewTokens.simps [of p])
    next
      case (Some err)
      with nt \<open>x = Some token\<close> pt inv1 show ?thesis
        by (simp add: processNewTokens.simps [of p])
    qed
  qed
qed

lemma Append_parserInv: "parserInv p \<Longrightarrow> parserInv (snd (Append p data))"
proof -
  assume inv: "parserInv p"
  obtain e t1 where a: "Append_t (tokenizer p) data = (e, t1)"
    by (cases "Append_t (tokenizer p) data")
  show ?thesis
  proof (cases e)
    case None
    with a inv show ?thesis by (simp add: Append_def processNewTokens_parserInv)
  next
    case (Some err)
    with a inv show ?thesis by (simp add: Append_def)
  qed
qed

lemma New_parserInv: "parserInv (NewStreamXmlParserWithConfig cfg)"
  by (simp add: NewStreamXmlParserWithConfig_def parserInv_def stackInv_def nodesInv_def
        GetXmlNodes_def trackedPartialNode_def Let_def)

lemma reachable_parserInv: "reachable p \<Longrightarrow> parserInv p"
  by (induction rule: reachable.induct)
     (simp_all add: New_parserInv Append_parserInv SetAllowedElements_p_def)

section \<open>Runs used as examples\<close>

lemma reachable_New: "reachable NewStreamXmlParser"
  unfolding NewStreamXmlParser_def by (rule reachable.new)

lemma reachable_AppendAll: "reachable p \<Longrightarrow> reachable (snd (AppendAll p cs))"
proof (induction cs arbitrary: p)
  case Nil
  then show ?case by simp
next
  case (Cons c cs)
  from Cons.prems have r: "reachable (snd (Append p c))" by (rule reachable.append)
  show ?case
  proof (cases "Append p c")
    case (Pair e p1)
    with r Cons.IH [of p1] show ?thesis by (cases e) simp_all
  qed
qed

lemma nested_open_depth: "depth (snd (Append NewStreamXmlParser ''<a><b>'')) = 2"
  by code_simp

lemma nested_open_stack: "xmlStack (snd (Append NewStreamXmlParser ''<a><b>'')) = [0]"
  by code_simp

section \<open>The depth and the stack\<close>

text \<open>
  C6, as the code has it. The claim reads: in every reachable parser state the nesting
  depth equals the number of node references on the stack. The code pushes a node only for
  an opening tag at depth 0 and counts every opening tag below it in \<open>depth\<close> alone, so the
  two differ from depth 2 on. What holds in every reachable state: the depth is never
  negative, the stack is empty exactly at depth 0, and it holds one reference at every
  greater depth.
\<close>

theorem stack_holds_only_the_top_level_node:
  assumes "reachable p"
  shows "0 \<le> depth p \<and> length (xmlStack p) = (if depth p = 0 then 0 else 1)"
proof -
  from assms have "stackInv p" using reachable_parserInv by (simp add: parserInv_def)
  then show ?thesis by (auto simp: stackInv_def split: if_splits option.splits)
qed

theorem stack_holds_only_the_top_level_node_witness:
  "0 \<le> depth (snd (Append NewStreamXmlParser ''<a><b>'')) \<and>
   length (xmlStack (snd (Append NewStreamXmlParser ''<a><b>''))) = 1"
  using stack_holds_only_the_top_level_node
          [OF reachable.append [OF reachable_New, of "''<a><b>''"]]
  by (simp add: nested_open_depth)

text \<open>
  The counterexample to C6 as stated: a new parser with the default configuration, after
  \<^verbatim>\<open>Append("<a><b>")\<close>, is at depth 2 with one node on the stack.
\<close>

theorem depth_equals_stack_size_counterexample:
  "reachable (snd (Append NewStreamXmlParser ''<a><b>'')) \<and>
   depth (snd (Append NewStreamXmlParser ''<a><b>'')) = 2 \<and>
   length (xmlStack (snd (Append NewStreamXmlParser ''<a><b>''))) = 1"
  by (simp add: reachable.append [OF reachable_New] nested_open_depth nested_open_stack)

section \<open>Claims about the parser's nodes and its configuration\<close>

lemma processToken_keeps:
  assumes "stackInv p" and t: "trackedPartialNode p = Some r" and r: "r < length (heap p)"
  shows "keepsNode p r (snd (processToken p token))"
proof (cases "Type token")
  case TokenText
  show ?thesis
  proof (cases "depth p > 0")
    case True
    with TokenText t show ?thesis by (simp add: processToken_def Let_def keepsNode_frame)
  next
    case False
    let ?t = "\<lparr>NodeType = ASTNodeText, Text = getValue p token, XmlNodeRef = None,
               Position = Start token\<rparr>"
    have "keepsNode p r (p\<lparr>astNodes := astNodes p @ [?t], textParts := b\<rparr>)" for b
      using t by (simp add: keepsNode_def GetXmlNodes_def)
    with False TokenText show ?thesis by (simp add: processToken_def Let_def)
  qed
next
  case TokenOpenBracket
  with t show ?thesis by (simp add: processToken_def keepsNode_frame)
next
  case TokenCloseBracket
  let ?q = "p\<lparr>tagTokens := tagTokens p @ [token]\<rparr>"
  have "stackInv ?q = stackInv p" by (rule stackInv_cong) simp_all
  with assms have "keepsNode ?q r (snd (processCompleteTag ?q))"
    by (intro processCompleteTag_keeps) simp_all
  then have k: "keepsNode p r (snd (processCompleteTag ?q))"
    by (simp add: keepsNode_def)
  then have "keepsNode p r (snd (processCompleteTag ?q)\<lparr>collectingTag := False, tagTokens := []\<rparr>)"
    by (simp add: keepsNode_def GetXmlNodes_def)
  with k show ?thesis
    using t TokenCloseBracket
    by (cases "processCompleteTag ?q")
       (auto simp: processToken_def keepsNode_frame split: option.splits)
next
  case TokenIncomplete
  with t show ?thesis by (simp add: processToken_def processIncomplete_keeps keepsNode_frame)
next
  case TokenSlash
  with t show ?thesis by (simp add: processToken_def keepsNode_frame)
next
  case TokenElementName
  with t show ?thesis by (simp add: processToken_def keepsNode_frame)
next
  case TokenAttributeName
  with t show ?thesis by (simp add: processToken_def keepsNode_frame)
next
  case TokenEquals
  with t show ?thesis by (simp add: processToken_def keepsNode_frame)
next
  case TokenAttributeValue
  with t show ?thesis by (simp add: processToken_def keepsNode_frame)
qed

text \<open>
  A run for C3: after \<^verbatim>\<open>Append("<tool>x")\<close> the element is open and tracked; the
  tokens of \<^verbatim>\<open></tool>\<close> up to the closing bracket are then collected.
\<close>

definition closingRun :: StreamXmlParser where
  "closingRun =
     snd (processToken
       (snd (processToken
          (snd (processToken (snd (Append NewStreamXmlParser ''<tool>x''))
             (mkToken TokenOpenBracket 7 8)))
          (mkToken TokenSlash 8 9)))
       (mkToken TokenElementName 9 13))"

lemma closingRun_inv: "parserInv closingRun"
  unfolding closingRun_def
  by (intro processToken_parserInv reachable_parserInv reachable.append reachable_New)

lemma closingRun_state:
  "trackedPartialNode closingRun = Some 0"
  "GetXmlNodes closingRun = [0]"
  "Partial (heap closingRun ! 0)"
  "trackedPartialNode (snd (processToken closingRun (mkToken TokenCloseBracket 13 14))) = None"
  by code_simp+

text \<open>
  C3. Once an element has begun at depth 0 the parser tracks its node \<open>r\<close>. Whatever token
  comes next, also the one that completes the element, the pointers that \<^verbatim>\<open>GetXmlNodes\<close>
  returns stay the same, in number and in order, no node is added to the store, the node
  \<open>r\<close> is in the tree once, and \<open>r\<close> is either still tracked or has become complete in
  its place. The invariant \<open>parserInv\<close> holds in every reachable state and after every
  token.
\<close>

theorem partial_node_completed_in_place:
  assumes "parserInv p" and "trackedPartialNode p = Some r"
  shows "GetXmlNodes (snd (processToken p token)) = GetXmlNodes p \<and>
         length (heap (snd (processToken p token))) = length (heap p) \<and>
         r \<in> set (GetXmlNodes (snd (processToken p token))) \<and>
         distinct (GetXmlNodes (snd (processToken p token))) \<and>
         (trackedPartialNode (snd (processToken p token)) = Some r \<or>
          (trackedPartialNode (snd (processToken p token)) = None \<and>
           \<not> Partial (heap (snd (processToken p token)) ! r)))"
proof -
  from assms have s: "stackInv p" and n: "nodesInv p" by (simp_all add: parserInv_def)
  from n assms(2) have m: "r \<in> set (GetXmlNodes p)" and d: "distinct (GetXmlNodes p)"
    and v: "r < length (heap p)"
    by (auto simp: nodesInv_def list_all_iff)
  from processToken_keeps [OF s assms(2) v, of token] m d show ?thesis
    by (simp add: keepsNode_def)
qed

theorem partial_node_completed_in_place_witness:
  "GetXmlNodes (snd (processToken closingRun (mkToken TokenCloseBracket 13 14))) = [0] \<and>
   \<not> Partial (heap (snd (processToken closingRun (mkToken TokenCloseBracket 13 14))) ! 0)"
  using partial_node_completed_in_place
          [OF closingRun_inv closingRun_state(1), of "mkToken TokenCloseBracket 13 14"]
  by (simp add: closingRun_state)

text \<open>
  C9. A configuration that fails the validation (a maximal depth below 1, a maximal buffer
  size below 1024 or a negative cleanup threshold) gives the parser that the default
  configuration gives: the constructor is total and returns no error.
\<close>

theorem invalid_config_falls_back_to_default:
  assumes "MaxDepth cfg < 1 \<or> MaxBufferSize cfg < 1024 \<or> BufferCleanupThreshold cfg < 0"
  shows "Validate cfg = Some ErrInvalidConfiguration \<and>
         NewStreamXmlParserWithConfig cfg = NewStreamXmlParserWithConfig DefaultConfig \<and>
         config (NewStreamXmlParserWithConfig cfg) =
           \<lparr>MaxDepth = 100, MaxBufferSize = 10485760, AllowedElements = None,
            BufferCleanupThreshold = 1024\<rparr> \<and>
         allowedElements (tokenizer (NewStreamXmlParserWithConfig cfg)) = None"
proof -
  from assms have v: "Validate cfg = Some ErrInvalidConfiguration"
    by (auto simp: Validate_def)
  have d: "Validate DefaultConfig = None" by (simp add: Validate_def DefaultConfig_def)
  from v d show ?thesis
    by (simp add: NewStreamXmlParserWithConfig_def Let_def DefaultConfig_def
          NewStreamXmlTokenizerWithConfig_def)
qed

theorem invalid_config_falls_back_to_default_witness:
  "config (NewStreamXmlParserWithConfig
      \<lparr>MaxDepth = 0, MaxBufferSize = 5, AllowedElements = Some [''tool''],
       BufferCleanupThreshold = - 1\<rparr>) =
     \<lparr>MaxDepth = 100, MaxBufferSize = 10485760, AllowedElements = None,
      BufferCleanupThreshold = 1024\<rparr>"
proof -
  let ?cfg = "\<lparr>MaxDepth = 0, MaxBufferSize = 5, AllowedElements = Some [''tool''],
               BufferCleanupThreshold = - 1\<rparr>"
  have "MaxDepth ?cfg < 1 \<or> MaxBufferSize ?cfg < 1024 \<or> BufferCleanupThreshold ?cfg < 0"
    by simp
  from invalid_config_falls_back_to_default [OF this] show ?thesis
    by (elim conjE) assumption
qed

section \<open>What the tokenizer does on a piece of input\<close>

lemma processText_loop_plain:
  "CHR ''<'' \<notin> set s \<Longrightarrow> s \<noteq> [] \<Longrightarrow>
     processText_loop s t =
       (None, t\<lparr>textStartPos := (if textBuffer t = [] then position t else textStartPos t),
                textBuffer := textBuffer t @ s, position := position t + length s\<rparr>)"
proof (induction s arbitrary: t)
  case Nil
  then show ?case by simp
next
  case (Cons ch rest)
  show ?case
  proof (cases "rest = []")
    case True
    from Cons.prems have "ch \<noteq> CHR ''<''" by auto
    with True show ?thesis by (simp add: Let_def)
  next
    case False
    from Cons.prems have "ch \<noteq> CHR ''<''" and "CHR ''<'' \<notin> set rest" by auto
    with False Cons.IH show ?thesis by (simp add: Let_def)
  qed
qed

lemma tryCompleteTag_loop_complete:
  "CHR ''>'' \<notin> set body \<Longrightarrow>
     tryCompleteTag_loop (body @ CHR ''>'' # rest) t =
       (True,
        (parseAndEmitTag
           (t\<lparr>tagBuffer := tagBuffer t @ body @ ''>'', position := position t + length body + 1\<rparr>)
           (tagBuffer t @ body @ ''>''))
        \<lparr>inTag := False, tagBuffer := [], consumed := position t + length body + 1\<rparr>)"
proof (induction body arbitrary: t)
  case Nil
  show ?case by (simp add: Let_def)
next
  case (Cons ch body)
  from Cons.prems have "ch \<noteq> CHR ''>''" and "CHR ''>'' \<notin> set body" by auto
  with Cons.IH show ?case by (simp add: Let_def)
qed


lemma NextToken_loop_at_end:
  "length (buffer t) \<le> position t \<Longrightarrow> NextToken_loop t = (None, t)"
  by (simp add: NextToken_loop.simps [of t])

lemma NextToken_loop_text:
  assumes "\<not> inTag t" and "CHR ''<'' \<notin> set (drop (position t) (buffer t))"
    and "position t < length (buffer t)"
  shows "NextToken_loop t =
     (None, t\<lparr>textStartPos := (if textBuffer t = [] then position t else textStartPos t),
              textBuffer := textBuffer t @ drop (position t) (buffer t),
              position := length (buffer t)\<rparr>)"
proof -
  let ?t1 = "t\<lparr>textStartPos := (if textBuffer t = [] then position t else textStartPos t),
              textBuffer := textBuffer t @ drop (position t) (buffer t),
              position := length (buffer t)\<rparr>"
  from assms(3) have ne: "drop (position t) (buffer t) \<noteq> []" by simp
  from assms(3) have "position t + length (drop (position t) (buffer t)) = length (buffer t)"
    by simp
  with processText_loop_plain [OF assms(2) ne, of t]
  have "processText t = (None, ?t1)" by (simp add: processText_def)
  moreover have "NextToken_loop ?t1 = (None, ?t1)" by (rule NextToken_loop_at_end) simp
  ultimately show ?thesis using assms(1,3) by (simp add: NextToken_loop.simps [of t])
qed

text \<open>
  C8. \<^verbatim>\<open>NextToken\<close> reaches the end of the buffer with literal text and outside a tag when
  no token is pending, the tokenizer is not inside a tag and no \<^verbatim>\<open><\<close> is left to read,
  and there is text: unread bytes, or text kept from before. It then returns one Text
  token with \<open>Complete = True\<close>, from the start of the text to the end of the buffer, and
  clears the text it has kept. (Between two calls the kept text is empty; the token then
  starts at the first unread byte.)
\<close>

theorem end_of_buffer_text_is_complete:
  assumes "length (pendingTokens t) \<le> pendingIndex t" and "\<not> inTag t"
    and "CHR ''<'' \<notin> set (drop (position t) (buffer t))"
    and "position t < length (buffer t) \<or> (position t = length (buffer t) \<and> textBuffer t \<noteq> [])"
  shows "NextToken t =
     (Some \<lparr>Type = TokenText,
            Start = (if textBuffer t = [] then position t else textStartPos t),
            End = length (buffer t), Complete = True\<rparr>,
      t\<lparr>textStartPos := (if textBuffer t = [] then position t else textStartPos t),
        textBuffer := [], position := length (buffer t)\<rparr>)"
proof (cases "position t < length (buffer t)")
  case True
  from True have "drop (position t) (buffer t) \<noteq> []" by simp
  with NextToken_loop_text [OF assms(2,3) True] assms(1,2) show ?thesis
    by (simp add: NextToken_def mkToken_def)
next
  case False
  with assms(4) have e: "position t = length (buffer t)" and n: "textBuffer t \<noteq> []" by auto
  from e have "NextToken_loop t = (None, t)" by (simp add: NextToken_loop_at_end)
  with assms(1,2) e n show ?thesis by (simp add: NextToken_def mkToken_def)
qed

theorem end_of_buffer_text_is_complete_witness:
  "fst (NextToken (snd (Append_t NewStreamXmlTokenizer ''Hello World''))) =
     Some \<lparr>Type = TokenText, Start = 0, End = 11, Complete = True\<rparr>"
proof -
  let ?t = "snd (Append_t NewStreamXmlTokenizer ''Hello World'')"
  have t: "?t = NewStreamXmlTokenizer\<lparr>buffer := ''Hello World''\<rparr>"
    by (simp add: Append_t_def NewStreamXmlTokenizer_def NewStreamXmlTokenizerWithConfig_def
          DefaultConfig_def)
  have 1: "length (pendingTokens ?t) \<le> pendingIndex ?t" and 2: "\<not> inTag ?t"
    and 3: "CHR ''<'' \<notin> set (drop (position ?t) (buffer ?t))"
    and 4: "position ?t < length (buffer ?t) \<or>
            (position ?t = length (buffer ?t) \<and> textBuffer ?t \<noteq> [])"
    unfolding t
    by (simp_all add: NewStreamXmlTokenizer_def NewStreamXmlTokenizerWithConfig_def)
  have 5: "textBuffer ?t = []" "position ?t = 0" "length (buffer ?t) = 11"
    unfolding t
    by (simp_all add: NewStreamXmlTokenizer_def NewStreamXmlTokenizerWithConfig_def)
  note r = end_of_buffer_text_is_complete [OF 1 2 3 4]
  have "fst (NextToken ?t) =
      Some \<lparr>Type = TokenText,
             Start = (if textBuffer ?t = [] then position ?t else textStartPos ?t),
             End = length (buffer ?t), Complete = True\<rparr>"
    by (simp only: r fst_conv)
  then show ?thesis by (simp add: 5)
qed

subsection \<open>A tag that is complete in the buffer\<close>

lemma tagTokensOf_not_Nil: "tagTokensOf st c \<noteq> []"
  by (simp add: tagTokensOf_def Let_def)

lemma parseAndEmitTag_pending:
  "pendingIndex (parseAndEmitTag t c) = pendingIndex t"
  "length (pendingTokens t) < length (pendingTokens (parseAndEmitTag t c))"
  using tagTokensOf_not_Nil [of "tagStartPos t" c]
  by (simp_all add: parseAndEmitTag_def)

lemma popPending_Some: "fst (popPending t) = Some (pendingTokens t ! pendingIndex t)"
  by (simp add: popPending_def Let_def)

lemma NextToken_popPending:
  "pendingIndex t < length (pendingTokens t) \<Longrightarrow> NextToken t = popPending t"
  by (simp add: NextToken_def)

lemma NextToken_loop_tag:
  assumes "pendingIndex t = length (pendingTokens t)" and "inTag t"
    and "drop (position t) (buffer t) = body @ CHR ''>'' # rest" and "CHR ''>'' \<notin> set body"
  shows "NextToken_loop t =
     popPending
       ((parseAndEmitTag
           (t\<lparr>tagBuffer := tagBuffer t @ body @ ''>'', position := position t + length body + 1\<rparr>)
           (tagBuffer t @ body @ ''>''))
        \<lparr>inTag := False, tagBuffer := [], consumed := position t + length body + 1\<rparr>)"
proof -
  let ?t1 = "t\<lparr>tagBuffer := tagBuffer t @ body @ ''>'', position := position t + length body + 1\<rparr>"
  let ?t3 = "(parseAndEmitTag ?t1 (tagBuffer t @ body @ ''>''))
        \<lparr>inTag := False, tagBuffer := [], consumed := position t + length body + 1\<rparr>"
  from assms(3) have pos: "position t < length (buffer t)"
    by (cases "position t < length (buffer t)") simp_all
  from assms(3,4) have tc: "tryCompleteTag t = (True, ?t3)"
    by (simp add: tryCompleteTag_def tryCompleteTag_loop_complete)
  from parseAndEmitTag_pending [of ?t1 "tagBuffer t @ body @ ''>''"] assms(1)
  have "pendingIndex ?t3 < length (pendingTokens ?t3)" by simp
  with pos assms(2) tc show ?thesis by (simp add: NextToken_loop.simps [of t])
qed

lemma NextToken_tag:
  assumes "pendingIndex t = length (pendingTokens t)" and "inTag t"
    and "drop (position t) (buffer t) = body @ CHR ''>'' # rest" and "CHR ''>'' \<notin> set body"
  shows "NextToken t =
     popPending
       ((parseAndEmitTag
           (t\<lparr>tagBuffer := tagBuffer t @ body @ ''>'', position := position t + length body + 1\<rparr>)
           (tagBuffer t @ body @ ''>''))
        \<lparr>inTag := False, tagBuffer := [], consumed := position t + length body + 1\<rparr>)"
  using assms(1) NextToken_loop_tag [OF assms]
  by (simp add: NextToken_def popPending_def Let_def)


definition toolThinkingConfig :: ParserConfig where
  "toolThinkingConfig = DefaultConfig\<lparr>AllowedElements := Some [''tool'', ''thinking'']\<rparr>"

lemma disallowed_run:
  "fst (Append (NewStreamXmlParserWithConfig toolThinkingConfig) ''<disallowed>x</disallowed>'') = None"
  "GetXmlNodes (snd (Append (NewStreamXmlParserWithConfig toolThinkingConfig)
      ''<disallowed>x</disallowed>'')) = []"
  "GetText (snd (Append (NewStreamXmlParserWithConfig toolThinkingConfig)
      ''<disallowed>x</disallowed>'')) = ''<disallowed>x</disallowed>''"
  by code_simp+

text \<open>
  C4. The tokenizer is inside a tag that starts at offset \<open>length pre\<close>, has read
  \<open>tagBuffer t\<close> of it, and the rest of the tag, \<open>body\<close> and the closing \<^verbatim>\<open>>\<close>, is in the
  buffer. When the allow-list is not nil and does not hold the tag's element name,
  \<^verbatim>\<open>NextToken\<close> returns one complete Text token that spans the whole tag, and queues no
  other token. With the allow-list \<^verbatim>\<open>{"tool", "thinking"}\<close>, appending
  \<^verbatim>\<open><disallowed>x</disallowed>\<close> gives no element node and the text
  \<^verbatim>\<open><disallowed>x</disallowed>\<close>.
\<close>

theorem disallowed_tag_is_one_text_token:
  assumes "pendingTokens t = []" and "pendingIndex t = 0" and "inTag t"
    and "buffer t = pre @ tagBuffer t @ body @ CHR ''>'' # rest"
    and "tagStartPos t = length pre" and "position t = length pre + length (tagBuffer t)"
    and "CHR ''>'' \<notin> set body"
    and "allowedElements t = Some A" and "tagElementName (tagBuffer t @ body @ ''>'') \<notin> A"
  shows "fst (NextToken t) =
           Some \<lparr>Type = TokenText, Start = length pre,
                  End = length pre + length (tagBuffer t @ body @ ''>''), Complete = True\<rparr> \<and>
         take (length (tagBuffer t @ body @ ''>'')) (drop (length pre) (buffer t)) =
           tagBuffer t @ body @ ''>'' \<and>
         pendingTokens (snd (NextToken t)) = [] \<and> \<not> inTag (snd (NextToken t)) \<and>
         GetXmlNodes (snd (Append (NewStreamXmlParserWithConfig toolThinkingConfig)
            ''<disallowed>x</disallowed>'')) = [] \<and>
         GetText (snd (Append (NewStreamXmlParserWithConfig toolThinkingConfig)
            ''<disallowed>x</disallowed>'')) = ''<disallowed>x</disallowed>''"
proof -
  let ?tag = "tagBuffer t @ body @ ''>''"
  let ?t1 = "t\<lparr>tagBuffer := ?tag, position := position t + length body + 1\<rparr>"
  from assms(4,6) have d: "drop (position t) (buffer t) = body @ CHR ''>'' # rest" by simp
  from assms(1,2) have p: "pendingIndex t = length (pendingTokens t)" by simp
  from assms(8,9) have "notAllowed ?t1 (tagElementName ?tag)" by (simp add: notAllowed_def)
  then have e: "parseAndEmitTag ?t1 ?tag =
      ?t1\<lparr>pendingTokens := pendingTokens ?t1 @
             [mkToken TokenText (tagStartPos ?t1) (tagStartPos ?t1 + length ?tag)]\<rparr>"
    by (simp add: parseAndEmitTag_def)
  have n: "NextToken t =
      popPending ((parseAndEmitTag ?t1 ?tag)
        \<lparr>inTag := False, tagBuffer := [], consumed := position t + length body + 1\<rparr>)"
    by (rule NextToken_tag [OF p assms(3) d assms(7)])
  have 1: "fst (NextToken t) =
           Some \<lparr>Type = TokenText, Start = length pre,
                  End = length pre + length ?tag, Complete = True\<rparr>"
    unfolding n e using assms(1,2,5) by (simp add: popPending_def Let_def mkToken_def)
  have 2: "pendingTokens (snd (NextToken t)) = [] \<and> \<not> inTag (snd (NextToken t))"
    unfolding n e using assms(1,2) by (simp add: popPending_def Let_def)
  from assms(4) have 3: "take (length ?tag) (drop (length pre) (buffer t)) = ?tag" by simp
  from 1 2 3 disallowed_run(2,3) show ?thesis by simp
qed

theorem disallowed_tag_is_one_text_token_witness:
  "fst (NextToken
     ((SetAllowedElements NewStreamXmlTokenizer (Some [''tool'', ''thinking'']))
        \<lparr>buffer := ''a<b c=d>e'', position := 2, inTag := True, tagStartPos := 1,
          tagBuffer := ''<''\<rparr>)) =
     Some \<lparr>Type = TokenText, Start = 1, End = 8, Complete = True\<rparr>"
proof -
  let ?t = "(SetAllowedElements NewStreamXmlTokenizer (Some [''tool'', ''thinking'']))
        \<lparr>buffer := ''a<b c=d>e'', position := 2, inTag := True, tagStartPos := 1,
          tagBuffer := ''<''\<rparr>"
  have f: "pendingTokens ?t = []" "pendingIndex ?t = 0" "inTag ?t"
    "buffer ?t = ''a'' @ tagBuffer ?t @ ''b c=d'' @ CHR ''>'' # ''e''"
    "tagStartPos ?t = length ''a''" "position ?t = length ''a'' + length (tagBuffer ?t)"
    "CHR ''>'' \<notin> set ''b c=d''"
    "allowedElements ?t = Some {''tool'', ''thinking''}"
    by (simp_all add: SetAllowedElements_def NewStreamXmlTokenizer_def
          NewStreamXmlTokenizerWithConfig_def)
  have g: "tagElementName (tagBuffer ?t @ ''b c=d'' @ ''>'') \<notin> {''tool'', ''thinking''}"
    by code_simp
  from disallowed_tag_is_one_text_token [OF f g]
  have "fst (NextToken ?t) =
           Some \<lparr>Type = TokenText, Start = length ''a'',
                  End = length ''a'' + length (tagBuffer ?t @ ''b c=d'' @ ''>''), Complete = True\<rparr>"
    by (elim conjE)
  then show ?thesis by (simp add: SetAllowedElements_def)
qed

subsection \<open>The tokens of one call of Append\<close>

text \<open>
  \<open>yields t toks\<close>: the calls of \<^verbatim>\<open>NextToken\<close> from \<open>t\<close> on return the tokens \<open>toks\<close>
  one after the other, and then nil.
\<close>

fun yields :: "StreamXmlTokenizer \<Rightarrow> Token list \<Rightarrow> bool" where
  "yields t [] = (fst (NextToken t) = None)"
| "yields t (token # toks) =
     (fst (NextToken t) = Some token \<and> yields (snd (NextToken t)) toks)"

text \<open>The loop of \<^verbatim>\<open>processNewTokens\<close> on a given list of tokens.\<close>

fun feedTokens :: "StreamXmlParser \<Rightarrow> Token list \<Rightarrow> error option \<times> StreamXmlParser" where
  "feedTokens p [] = (None, p\<lparr>tokenizer := snd (NextToken (tokenizer p))\<rparr>)"
| "feedTokens p (token # toks) =
     (case processToken (p\<lparr>tokenizer := snd (NextToken (tokenizer p))\<rparr>) token of
        (Some err, p1) \<Rightarrow> (Some err, p1)
      | (None, p1) \<Rightarrow> feedTokens p1 toks)"

lemma processNewTokens_yields:
  "yields (tokenizer p) toks \<Longrightarrow> processNewTokens p = feedTokens p toks"
proof (induction toks arbitrary: p)
  case Nil
  then show ?case
    by (cases "NextToken (tokenizer p)") (simp add: processNewTokens.simps [of p])
next
  case (Cons token toks)
  obtain t1 where nt: "NextToken (tokenizer p) = (Some token, t1)" and y: "yields t1 toks"
    using Cons.prems by (cases "NextToken (tokenizer p)") auto
  obtain e p1 where pt: "processToken (p\<lparr>tokenizer := t1\<rparr>) token = (e, p1)"
    by (cases "processToken (p\<lparr>tokenizer := t1\<rparr>) token")
  have "tokenizer (snd (processToken (p\<lparr>tokenizer := t1\<rparr>) token)) = t1"
    by (simp add: processToken_tokenizer)
  with pt have "tokenizer p1 = t1" by simp
  with y Cons.IH [of p1] have "processNewTokens p1 = feedTokens p1 toks" by simp
  with nt pt show ?case by (cases e) (simp_all add: processNewTokens.simps [of p])
qed

text \<open>
  A tokenizer is idle when it has read its whole buffer, is outside a tag and holds
  neither text nor tokens: the state after an \<^verbatim>\<open>Append\<close> whose data ended outside a tag.
\<close>

definition idle :: "StreamXmlTokenizer \<Rightarrow> bool" where
  "idle t =
     (\<not> inTag t \<and> pendingTokens t = [] \<and> pendingIndex t = 0 \<and> textBuffer t = [] \<and>
      position t = length (buffer t))"

lemma yields_pending:
  assumes "length (buffer t) \<le> position t" and "textBuffer t = []" and "\<not> inTag t"
    and "pendingIndex t \<le> length (pendingTokens t)"
  shows "yields t (drop (pendingIndex t) (pendingTokens t))"
  using assms
proof (induction "length (pendingTokens t) - pendingIndex t" arbitrary: t)
  case 0
  then have "NextToken t = (None, t)"
    by (simp add: NextToken_def NextToken_loop_at_end)
  with 0 show ?case by simp
next
  case (Suc n)
  then have lt: "pendingIndex t < length (pendingTokens t)" by simp
  let ?t1 = "if length (pendingTokens t) \<le> pendingIndex t + 1
             then t\<lparr>pendingIndex := pendingIndex t + 1, pendingTokens := [], pendingIndex := 0\<rparr>
             else t\<lparr>pendingIndex := pendingIndex t + 1\<rparr>"
  from lt have nt: "NextToken t = (Some (pendingTokens t ! pendingIndex t), ?t1)"
    by (simp add: NextToken_def popPending_def Let_def)
  have d: "drop (pendingIndex t) (pendingTokens t) =
      pendingTokens t ! pendingIndex t # drop (Suc (pendingIndex t)) (pendingTokens t)"
    using lt by (simp add: Cons_nth_drop_Suc)
  have "yields ?t1 (drop (pendingIndex ?t1) (pendingTokens ?t1))"
  proof (rule Suc.hyps(1))
    show "n = length (pendingTokens ?t1) - pendingIndex ?t1" using Suc.hyps(2) by auto
  qed (use Suc.prems lt in auto)
  moreover have "drop (pendingIndex ?t1) (pendingTokens ?t1) =
      drop (Suc (pendingIndex t)) (pendingTokens t)"
    by auto
  ultimately have "yields ?t1 (drop (Suc (pendingIndex t)) (pendingTokens t))" by simp
  with nt show ?case unfolding d by simp
qed


subsection \<open>Tags with a plain name\<close>

text \<open>
  A plain name is not empty and has no white space, no \<^verbatim>\<open>>\<close> and no \<^verbatim>\<open>/\<close>, as \<^verbatim>\<open>tool\<close>.
\<close>

definition plainName :: "string \<Rightarrow> bool" where
  "plainName n =
     (n \<noteq> [] \<and> firstSpaceIndex n = None \<and> CHR ''>'' \<notin> set n \<and> CHR ''/'' \<notin> set n)"

lemma firstSpaceIndex_None_drop:
  "firstSpaceIndex s = None \<Longrightarrow> spaceRuneWidth (drop i s) = 0"
proof (induction s arbitrary: i)
  case Nil
  show ?case by (simp add: spaceRuneWidth_def)
next
  case (Cons c r)
  from Cons.prems have w: "spaceRuneWidth (c # r) = 0" and r: "firstSpaceIndex r = None"
    by (auto split: if_splits)
  show ?case
  proof (cases i)
    case 0
    with w show ?thesis by simp
  next
    case (Suc j)
    with Cons.IH [OF r, of j] show ?thesis by simp
  qed
qed

lemma drop_length_minus_one: "s \<noteq> [] \<Longrightarrow> drop (length s - 1) s = [last s]"
proof -
  assume "s \<noteq> []"
  then have "s = butlast s @ [last s]" by simp
  then have "drop (length (butlast s)) s = drop (length (butlast s)) (butlast s @ [last s])"
    by simp
  also have "\<dots> = [last s]" by (simp only: drop_append drop_all order_refl diff_self_eq_0 drop_0 append_Nil)
  finally show ?thesis by simp
qed

lemma TrimSpace_no_space:
  assumes "firstSpaceIndex s = None"
  shows "TrimSpace s = s"
proof -
  note w = firstSpaceIndex_None_drop [OF assms]
  from w [of 0] have l: "TrimLeft s = s" by (simp add: TrimLeft.simps [of s])
  have "\<not> (s \<noteq> [] \<and> isAsciiSpace (last s))"
  proof
    assume a: "s \<noteq> [] \<and> isAsciiSpace (last s)"
    then have "drop (length s - 1) s = [last s]" by (intro drop_length_minus_one) simp
    with w [of "length s - 1"] have "spaceRuneWidth [last s] = 0" by simp
    with a show False by (simp add: spaceRuneWidth_def)
  qed
  with w [of "length s - 2"] w [of "length s - 3"] have "trailingSpaceWidth s = 0"
    by (simp add: trailingSpaceWidth_def)
  then have "TrimRight s = s" by (simp add: TrimRight.simps [of s])
  with l show ?thesis by (simp add: TrimSpace_def)
qed

lemma plainName_open_parts:
  assumes "plainName n"
  shows "\<not> tagIsClosing (CHR ''<'' # n @ ''>'')"
    and "\<not> tagIsSelfClosing (CHR ''<'' # n @ ''>'')"
    and "tagInner (CHR ''<'' # n @ ''>'') = n"
    and "tagElementName (CHR ''<'' # n @ ''>'') = n"
    and "tagRestOfTag (CHR ''<'' # n @ ''>'') = []"
proof -
  from assms have ne: "n \<noteq> []" and sp: "firstSpaceIndex n = None"
    and sl: "CHR ''/'' \<notin> set n"
    by (simp_all add: plainName_def)
  have h: "hd n \<noteq> CHR ''/''" using hd_in_set [OF ne] sl by metis
  have l: "last n \<noteq> CHR ''/''" using last_in_set [OF ne] sl by metis
  show c: "\<not> tagIsClosing (CHR ''<'' # n @ ''>'')"
    using ne h by (simp add: tagIsClosing_def)
  from c have i0: "tagInner0 (CHR ''<'' # n @ ''>'') = n" by (simp add: tagInner0_def)
  show s: "\<not> tagIsSelfClosing (CHR ''<'' # n @ ''>'')"
    using l by (simp add: tagIsSelfClosing_def i0)
  show i: "tagInner (CHR ''<'' # n @ ''>'') = n"
    using s i0 sp by (simp add: tagInner_def TrimSpace_no_space)
  show "tagElementName (CHR ''<'' # n @ ''>'') = n"
    using i sp by (simp add: tagElementName_def)
  show "tagRestOfTag (CHR ''<'' # n @ ''>'') = []"
    using i sp by (simp add: tagRestOfTag_def)
qed

lemma tagTokensOf_open:
  assumes "plainName n"
  shows "tagTokensOf st (CHR ''<'' # n @ ''>'') =
     [mkToken TokenOpenBracket st (st + 1),
      mkToken TokenElementName (st + 1) (st + 1 + length n),
      mkToken TokenCloseBracket (st + length n + 1) (st + length n + 2)]"
  by (simp add: tagTokensOf_def Let_def plainName_open_parts [OF assms])

lemma yields_cong:
  "NextToken t = NextToken t' \<Longrightarrow> toks \<noteq> [] \<Longrightarrow> yields t toks = yields t' toks"
  by (cases toks) simp_all

lemma NextToken_loop_open:
  assumes "\<not> inTag t" and "textBuffer t = []"
    and "drop (position t) (buffer t) = CHR ''<'' # zs"
  shows "NextToken_loop t =
     NextToken_loop (t\<lparr>inTag := True, tagStartPos := position t, tagBuffer := []\<rparr>)"
proof -
  from assms(3) have pos: "position t < length (buffer t)"
    by (cases "position t < length (buffer t)") simp_all
  from assms(2,3) have "processText t =
      (None, t\<lparr>inTag := True, tagStartPos := position t, tagBuffer := []\<rparr>)"
    by (simp add: processText_def Let_def)
  with pos assms(1) show ?thesis by (simp add: NextToken_loop.simps [of t])
qed

text \<open>
  An idle tokenizer that is given one complete tag of an allowed element yields the
  tokens of that tag and then nothing.
\<close>

lemma idle_yields_tag:
  assumes "idle t0" and "CHR ''>'' \<notin> set s"
    and "\<not> notAllowed t0 (tagElementName (CHR ''<'' # s @ ''>''))"
  shows "yields (t0\<lparr>buffer := buffer t0 @ CHR ''<'' # s @ ''>'', incompleteReturned := False\<rparr>)
           (tagTokensOf (length (buffer t0)) (CHR ''<'' # s @ ''>''))"
proof -
  let ?tag = "CHR ''<'' # s @ ''>''"
  let ?toks = "tagTokensOf (length (buffer t0)) ?tag"
  let ?t1 = "t0\<lparr>buffer := buffer t0 @ ?tag, incompleteReturned := False\<rparr>"
  let ?t2 = "?t1\<lparr>inTag := True, tagStartPos := position ?t1, tagBuffer := []\<rparr>"
  let ?t2' = "?t2\<lparr>tagBuffer := tagBuffer ?t2 @ (CHR ''<'' # s) @ ''>'',
                  position := position ?t2 + length (CHR ''<'' # s) + 1\<rparr>"
  let ?t3 = "(parseAndEmitTag ?t2' (tagBuffer ?t2 @ (CHR ''<'' # s) @ ''>''))
        \<lparr>inTag := False, tagBuffer := [], consumed := position ?t2 + length (CHR ''<'' # s) + 1\<rparr>"
  from assms(1) have i: "\<not> inTag t0" "pendingTokens t0 = []" "pendingIndex t0 = 0"
    "textBuffer t0 = []" "position t0 = length (buffer t0)"
    by (simp_all add: idle_def)
  have l1: "NextToken_loop ?t1 = NextToken_loop ?t2"
    by (rule NextToken_loop_open [where zs = "s @ ''>''"]) (simp_all add: i)
  have l2: "NextToken_loop ?t2 = popPending ?t3"
    by (rule NextToken_loop_tag [where rest = "[]"]) (simp_all add: i assms(2))
  from assms(3) have "\<not> notAllowed ?t2' (tagElementName ?tag)" by (simp add: notAllowed_def)
  then have e: "parseAndEmitTag ?t2' ?tag = ?t2'\<lparr>pendingTokens := ?toks\<rparr>"
    by (simp add: parseAndEmitTag_def i)
  have t3: "pendingTokens ?t3 = ?toks" "pendingIndex ?t3 = 0" "textBuffer ?t3 = []"
    "\<not> inTag ?t3" "length (buffer ?t3) \<le> position ?t3"
    using e by (simp_all add: i)
  from t3(1,2) tagTokensOf_not_Nil [of "length (buffer t0)" ?tag]
  have lt: "pendingIndex ?t3 < length (pendingTokens ?t3)" by simp
  have n1: "NextToken ?t1 = popPending ?t3"
    using l1 l2 by (simp add: NextToken_def i popPending_def Let_def)
  have n3: "NextToken ?t3 = popPending ?t3" by (rule NextToken_popPending [OF lt])
  have "yields ?t3 (drop (pendingIndex ?t3) (pendingTokens ?t3))"
    using t3 by (intro yields_pending) simp_all
  with t3(1,2) have "yields ?t3 ?toks" by simp
  moreover have nn: "NextToken ?t1 = NextToken ?t3" by (simp only: n1 n3)
  have "yields ?t1 ?toks = yields ?t3 ?toks"
    by (rule yields_cong [OF nn]) (simp add: tagTokensOf_not_Nil)
  ultimately show ?thesis by simp
qed


subsection \<open>The tokens of a closing tag\<close>

text \<open>
  The tokens that \<^verbatim>\<open>processToken\<close> only collects while it is inside a tag: every kind but
  Text, the two brackets and Incomplete.
\<close>

definition tagPart :: "Token \<Rightarrow> bool" where
  "tagPart token =
     (Type token = TokenSlash \<or> Type token = TokenElementName \<or>
      Type token = TokenAttributeName \<or> Type token = TokenEquals \<or>
      Type token = TokenAttributeValue)"

lemma tagPart_mkToken [simp]:
  "tagPart (mkToken ty s e) =
     (ty = TokenSlash \<or> ty = TokenElementName \<or> ty = TokenAttributeName \<or> ty = TokenEquals \<or>
      ty = TokenAttributeValue)"
  by (simp add: tagPart_def mkToken_def)

text \<open>\<^verbatim>\<open>parseAndEmitAttributes\<close> only adds tokens, and only tokens of attributes.\<close>

lemma parseAndEmitAttributes_extends:
  "\<exists>extra. parseAndEmitAttributes s currentPos toks = toks @ extra \<and> list_all tagPart extra"
proof (induction s currentPos toks rule: parseAndEmitAttributes.induct)
  case (1 s currentPos toks)
  define s1 where "s1 = dropWhile isSpaceByte s"
  define cp1 where "cp1 = currentPos + length (takeWhile isSpaceByte s)"
  define nameLen where "nameLen = length (takeWhile isNameByte s1)"
  define s2 where "s2 = dropWhile isNameByte s1"
  define toks1 where "toks1 = toks @ [mkToken TokenAttributeName cp1 (cp1 + nameLen)]"
  define cp2 where "cp2 = cp1 + nameLen"
  define s3 where "s3 = dropWhile isSpaceByte s2"
  define cp3 where "cp3 = cp2 + length (takeWhile isSpaceByte s2)"
  define toks2 where "toks2 = toks1 @ [mkToken TokenEquals cp3 (cp3 + 1)]"
  define s4 where "s4 = tl s3"
  define cp4 where "cp4 = cp3 + 1"
  define s5 where "s5 = dropWhile isSpaceByte s4"
  define cp5 where "cp5 = cp4 + length (takeWhile isSpaceByte s4)"
  define quote where "quote = hd s5"
  define s6 where "s6 = tl s5"
  define cp6 where "cp6 = cp5 + 1"
  define valueLen where "valueLen = length (takeWhile (\<lambda>c. c \<noteq> quote) s6)"
  define s7 where "s7 = dropWhile (\<lambda>c. c \<noteq> quote) s6"
  define toks3 where "toks3 = toks2 @ [mkToken TokenAttributeValue cp6 (cp6 + valueLen)]"
  define cp7 where "cp7 = cp6 + valueLen"
  define valueLen' where "valueLen' = length (takeWhile (\<lambda>c. \<not> isSpaceByte c) s5)"
  define s6' where "s6' = dropWhile (\<lambda>c. \<not> isSpaceByte c) s5"
  define toks3' where "toks3' = toks2 @ [mkToken TokenAttributeValue cp5 (cp5 + valueLen')]"
  note defs = s1_def cp1_def nameLen_def s2_def toks1_def cp2_def s3_def cp3_def toks2_def
    s4_def cp4_def s5_def cp5_def quote_def s6_def cp6_def valueLen_def s7_def toks3_def cp7_def
    valueLen'_def s6'_def toks3'_def
  have unfold: "parseAndEmitAttributes s currentPos toks =
     (if s = [] then toks
      else if s1 = [] then toks
      else if s2 = [] then toks
      else if s3 = [] \<or> hd s3 \<noteq> CHR ''='' then toks1
      else if s5 = [] then toks2
      else if hd s5 = CHR 0x22 \<or> hd s5 = CHR 0x27 then
        (if s7 \<noteq> [] then parseAndEmitAttributes (tl s7) (cp7 + 1) toks3
         else parseAndEmitAttributes s7 cp7 toks3)
      else parseAndEmitAttributes s6' (cp5 + valueLen') toks3')"
    unfolding defs by (subst parseAndEmitAttributes.simps) (simp only: Let_def)
  let ?P = "\<lambda>r. \<exists>extra. r = toks @ extra \<and> list_all tagPart extra"
  have p0: "?P toks" by simp
  have p1: "?P toks1" by (simp add: toks1_def)
  have p2: "?P toks2" by (simp add: toks2_def toks1_def)
  have ext3: "(\<exists>extra. r = toks3 @ extra \<and> list_all tagPart extra) \<Longrightarrow> ?P r" for r
    by (auto simp: toks3_def toks2_def toks1_def)
  have ext3': "(\<exists>extra. r = toks3' @ extra \<and> list_all tagPart extra) \<Longrightarrow> ?P r" for r
    by (auto simp: toks3'_def toks2_def toks1_def)
  show ?case
  proof (cases "s = [] \<or> s1 = [] \<or> s2 = [] \<or> (s3 = [] \<or> hd s3 \<noteq> CHR ''='') \<or> s5 = []")
    case True
    with p0 p1 p2 show ?thesis unfolding unfold by auto
  next
    case False
    then have c: "s \<noteq> []" "s1 \<noteq> []" "s2 \<noteq> []" "\<not> (s3 = [] \<or> hd s3 \<noteq> CHR ''='')" "s5 \<noteq> []"
      by auto
    show ?thesis
    proof (cases "hd s5 = CHR 0x22 \<or> hd s5 = CHR 0x27")
      case q: True
      show ?thesis
      proof (cases "s7 \<noteq> []")
        case True
        have "?P (parseAndEmitAttributes (tl s7) (cp7 + 1) toks3)"
          by (rule ext3, rule "1.IH"(1) [OF c(1) s1_def cp1_def c(2) nameLen_def s2_def c(3)
                toks1_def cp2_def s3_def cp3_def c(4) toks2_def s4_def cp4_def s5_def cp5_def
                c(5) q quote_def s6_def cp6_def valueLen_def s7_def toks3_def cp7_def True])
        with c q True show ?thesis unfolding unfold by simp
      next
        case False
        have "?P (parseAndEmitAttributes s7 cp7 toks3)"
          by (rule ext3, rule "1.IH"(2) [OF c(1) s1_def cp1_def c(2) nameLen_def s2_def c(3)
                toks1_def cp2_def s3_def cp3_def c(4) toks2_def s4_def cp4_def s5_def cp5_def
                c(5) q quote_def s6_def cp6_def valueLen_def s7_def toks3_def cp7_def False])
        with c q False show ?thesis unfolding unfold by simp
      qed
    next
      case nq: False
      have "?P (parseAndEmitAttributes s6' (cp5 + valueLen') toks3')"
        by (rule ext3', rule "1.IH"(3) [OF c(1) s1_def cp1_def c(2) nameLen_def s2_def c(3)
              toks1_def cp2_def s3_def cp3_def c(4) toks2_def s4_def cp4_def s5_def cp5_def
              c(5) nq valueLen'_def s6'_def toks3'_def])
      with c nq show ?thesis unfolding unfold by simp
    qed
  qed
qed

text \<open>
  The tokens of a tag that begins with \<^verbatim>\<open></\<close>, whatever follows up to the \<^verbatim>\<open>>\<close>: the opening
  bracket, the slash, then the name and what else the tag holds, and the closing bracket.
\<close>

lemma tagTokensOf_closing:
  "\<exists>mid. tagTokensOf st (CHR ''<'' # CHR ''/'' # s @ ''>'') =
           mkToken TokenOpenBracket st (st + 1) # mkToken TokenSlash (st + 1) (st + 2) # mid @
           [mkToken TokenCloseBracket (st + length s + 2) (st + length s + 3)] \<and>
         list_all tagPart mid"
proof -
  let ?tag = "CHR ''<'' # CHR ''/'' # s @ ''>''"
  let ?toks3 = "[mkToken TokenOpenBracket st (st + 1), mkToken TokenSlash (st + 1) (st + 2),
                 mkToken TokenElementName (st + 2) (st + 2 + length (tagElementName ?tag))]"
  define toks4 where "toks4 =
    (if tagRestOfTag ?tag \<noteq> [] then
       case Index (drop 2 ?tag) (tagRestOfTag ?tag) of
         Some attrStartInTag \<Rightarrow>
           parseAndEmitAttributes (tagRestOfTag ?tag) (st + 2 + attrStartInTag) ?toks3
       | None \<Rightarrow> ?toks3
     else ?toks3)"
  define toks5 where "toks5 =
    (if tagIsSelfClosing ?tag then toks4 @ [mkToken TokenSlash (st + length s + 1) (st + length s + 2)]
     else toks4)"
  have c: "tagIsClosing ?tag" by (simp add: tagIsClosing_def)
  have t: "tagTokensOf st ?tag =
      toks5 @ [mkToken TokenCloseBracket (st + length s + 2) (st + length s + 3)]"
    using c by (simp add: tagTokensOf_def Let_def toks5_def toks4_def numeral_3_eq_3 numeral_2_eq_2
          split: option.splits)
  have "\<exists>extra. toks4 = ?toks3 @ extra \<and> list_all tagPart extra"
    using parseAndEmitAttributes_extends [of "tagRestOfTag ?tag" _ ?toks3]
    by (auto simp: toks4_def split: option.splits)
  then obtain extra where e: "toks4 = ?toks3 @ extra" and a: "list_all tagPart extra" by blast
  show ?thesis
  proof (cases "tagIsSelfClosing ?tag")
    case True
    with e a t show ?thesis
      by (intro exI [where x = "mkToken TokenElementName (st + 2) (st + 2 + length (tagElementName ?tag))
            # extra @ [mkToken TokenSlash (st + length s + 1) (st + length s + 2)]"])
         (simp add: toks5_def)
  next
    case False
    with e a t show ?thesis
      by (intro exI [where x = "mkToken TokenElementName (st + 2) (st + 2 + length (tagElementName ?tag))
            # extra"])
         (simp add: toks5_def)
  qed
qed


subsection \<open>The tokenizer between two calls of Append\<close>

text \<open>
  \<open>queueInv\<close>: the position is inside the buffer, and the queue of pending tokens is either
  not used up or empty with its index at 0. \<open>atEnd\<close>: the whole buffer is read and nothing is
  left to return.
\<close>

definition queueInv :: "StreamXmlTokenizer \<Rightarrow> bool" where
  "queueInv t =
     (position t \<le> length (buffer t) \<and>
      (pendingIndex t < length (pendingTokens t) \<or> (pendingTokens t = [] \<and> pendingIndex t = 0)))"

definition atEnd :: "StreamXmlTokenizer \<Rightarrow> bool" where
  "atEnd t =
     (position t = length (buffer t) \<and> pendingTokens t = [] \<and> pendingIndex t = 0 \<and>
      (inTag t \<or> textBuffer t = []))"

lemma tryCompleteTag_loop_queue:
  "tryCompleteTag_loop s t = (b, t') \<Longrightarrow>
     pendingIndex t' = pendingIndex t \<and>
     (if b then length (pendingTokens t) < length (pendingTokens t')
      else pendingTokens t' = pendingTokens t \<and> position t' = position t + length s)"
proof (induction s arbitrary: t)
  case Nil
  then show ?case by auto
next
  case (Cons ch rest)
  let ?t1 = "t\<lparr>tagBuffer := tagBuffer t @ [ch], position := position t + 1\<rparr>"
  show ?case
  proof (cases "ch = CHR ''>''")
    case True
    with Cons.prems have b: "b" and
      t': "t' = (parseAndEmitTag ?t1 (tagBuffer ?t1))\<lparr>inTag := False, tagBuffer := [],
                   consumed := position (parseAndEmitTag ?t1 (tagBuffer ?t1))\<rparr>"
      by (auto simp: Let_def)
    from parseAndEmitTag_pending [of ?t1 "tagBuffer ?t1"] b show ?thesis
      unfolding t' by simp
  next
    case False
    with Cons.prems have "tryCompleteTag_loop rest ?t1 = (b, t')" by (simp add: Let_def)
    from Cons.IH [OF this] show ?thesis by (cases b) simp_all
  qed
qed

lemma popPending_queueInv:
  assumes "pendingIndex t < length (pendingTokens t)" and "position t \<le> length (buffer t)"
  shows "queueInv (snd (popPending t))"
  using assms by (simp add: popPending_def Let_def queueInv_def)

lemma NextToken_loop_queue:
  "pendingTokens t = [] \<Longrightarrow> pendingIndex t = 0 \<Longrightarrow> position t \<le> length (buffer t) \<Longrightarrow>
   NextToken_loop t = (r, t') \<Longrightarrow>
     (case r of
        Some token \<Rightarrow> queueInv t'
      | None \<Rightarrow> pendingTokens t' = [] \<and> pendingIndex t' = 0 \<and> position t' = length (buffer t'))"
proof (induction t rule: NextToken_loop.induct)
  case (1 t)
  note eq = NextToken_loop.simps [of t]
  show ?case
  proof (cases "position t < length (buffer t)")
    case False
    with "1.prems" show ?thesis by (simp add: eq)
  next
    case pos: True
    show ?thesis
    proof (cases "inTag t")
      case True
      obtain b t1 where tc: "tryCompleteTag t = (b, t1)" by (cases "tryCompleteTag t")
      then have l: "tryCompleteTag_loop (drop (position t) (buffer t)) t = (b, t1)"
        by (simp add: tryCompleteTag_def)
      note q = tryCompleteTag_loop_queue [OF l]
      note bf = tryCompleteTag_loop_buffer [OF l]
      note ps = tryCompleteTag_loop_position [OF l]
      show ?thesis
      proof (cases b)
        case True
        with q "1.prems"(1,2) have lt: "pendingIndex t1 < length (pendingTokens t1)" by simp
        from ps bf pos have "position t1 \<le> length (buffer t1)" by simp
        from popPending_queueInv [OF lt this] popPending_Some [of t1]
        have "queueInv (snd (popPending t1))" and "fst (popPending t1) \<noteq> None" by simp_all
        moreover from pos \<open>inTag t\<close> tc True lt "1.prems"(4) have "popPending t1 = (r, t')"
          by (simp add: eq)
        ultimately show ?thesis by (cases r) simp_all
      next
        case False
        with pos \<open>inTag t\<close> tc "1.prems"(4) have "r = None" and "t' = t1" by (simp_all add: eq)
        with q False bf pos "1.prems"(1,2) show ?thesis by simp
      qed
    next
      case False
      obtain x t1 where pt: "processText t = (x, t1)" by (cases "processText t")
      then have l: "processText_loop (drop (position t) (buffer t)) t = (x, t1)"
        by (simp add: processText_def)
      note bf = processText_loop_buffer [OF l]
      note ps = processText_loop_position [OF l]
      from ps bf pos have p1: "position t1 \<le> length (buffer t1)" by simp
      show ?thesis
      proof (cases x)
        case (Some token)
        with pos False pt "1.prems"(4) have "r = Some token" and "t' = t1" by (simp_all add: eq)
        with bf p1 "1.prems"(1,2) show ?thesis by (simp add: queueInv_def)
      next
        case None
        with pos False pt "1.prems"(4) have n: "NextToken_loop t1 = (r, t')" by (simp add: eq)
        from bf "1.prems"(1,2) have "pendingTokens t1 = []" "pendingIndex t1 = 0" by simp_all
        from "1.IH"(2) [OF pos False pt [symmetric] None this p1 n] show ?thesis .
      qed
    qed
  qed
qed

lemma NextToken_queueInv:
  assumes "queueInv t" and "NextToken t = (r, t')"
  shows "queueInv t' \<and> (r = None \<longrightarrow> atEnd t')"
proof (cases "pendingIndex t < length (pendingTokens t)")
  case True
  from assms(1) have "position t \<le> length (buffer t)" by (simp add: queueInv_def)
  from popPending_queueInv [OF True this] popPending_Some [of t] True assms(2)
  show ?thesis by (auto simp: NextToken_def)
next
  case False
  with assms(1) have e: "pendingTokens t = []" "pendingIndex t = 0"
    and p: "position t \<le> length (buffer t)"
    by (simp_all add: queueInv_def)
  obtain r1 t1 where l: "NextToken_loop t = (r1, t1)" by (cases "NextToken_loop t")
  note q = NextToken_loop_queue [OF e p l]
  show ?thesis
  proof (cases r1)
    case (Some token)
    with False l assms(2) q show ?thesis by (auto simp: NextToken_def)
  next
    case None
    with q have q1: "pendingTokens t1 = []" "pendingIndex t1 = 0"
      "position t1 = length (buffer t1)" by simp_all
    show ?thesis
    proof (cases "textBuffer t1 \<noteq> [] \<and> \<not> inTag t1")
      case True
      with False l None assms(2) have "r \<noteq> None" and "t' = t1\<lparr>textBuffer := []\<rparr>"
        by (auto simp: NextToken_def)
      with q1 show ?thesis by (auto simp: queueInv_def)
    next
      case noText: False
      show ?thesis
      proof (cases "inTag t1 \<and> tagBuffer t1 \<noteq> [] \<and> \<not> incompleteReturned t1")
        case True
        with noText False l None assms(2) have "r \<noteq> None"
          and "t' = t1\<lparr>incompleteReturned := True\<rparr>"
          by (auto simp: NextToken_def)
        with q1 show ?thesis by (auto simp: queueInv_def)
      next
        case False
        with noText \<open>\<not> pendingIndex t < length (pendingTokens t)\<close> l None assms(2)
        have "t' = t1" by (auto simp: NextToken_def)
        with q1 noText show ?thesis by (auto simp: queueInv_def atEnd_def)
      qed
    qed
  qed
qed

text \<open>
  An error comes from the test of the depth only, after the depth was raised: the depth
  is then at least 1.
\<close>

lemma closingTag_no_error [simp]: "fst (closingTag p) = None"
  by (simp add: closingTag_def Let_def)

lemma selfClosingTag_no_error [simp]: "fst (selfClosingTag p n a) = None"
  by (simp add: selfClosingTag_def split: option.splits)

lemma checkMaxDepth_error:
  "fst (checkMaxDepth p) \<noteq> None \<Longrightarrow> 1 \<le> depth p \<Longrightarrow> 1 \<le> depth (snd (checkMaxDepth p))"
  by simp

lemma openingTag_error:
  assumes "fst (openingTag p n a) \<noteq> None" and "0 \<le> depth p"
  shows "1 \<le> depth (snd (openingTag p n a))"
  using assms
  by (auto simp: openingTag_def openNewNode_def Let_def split: option.splits if_splits)

lemma processCompleteTag_error:
  assumes "fst (processCompleteTag p) \<noteq> None" and "0 \<le> depth p"
  shows "1 \<le> depth (snd (processCompleteTag p))"
  using assms openingTag_error [of p]
  by (auto simp: processCompleteTag_def Let_def split: prod.splits if_splits)

lemma processToken_error:
  assumes "processToken p token = (Some err, p1)" and "0 \<le> depth p"
  shows "1 \<le> depth p1"
proof (cases "Type token = TokenCloseBracket \<and> collectingTag p")
  case True
  let ?p0 = "p\<lparr>tagTokens := tagTokens p @ [token]\<rparr>"
  obtain e q where c: "processCompleteTag ?p0 = (e, q)" by (cases "processCompleteTag ?p0")
  with True assms(1) have "e = Some err" and "p1 = q"
    by (auto simp: processToken_def split: option.splits)
  with c processCompleteTag_error [of ?p0] assms(2) show ?thesis by simp
next
  case False
  with assms(1) show ?thesis
    by (auto simp: processToken_def Let_def split: TokenType.splits if_splits)
qed

lemma stackInv_depth: "stackInv p \<Longrightarrow> 0 \<le> depth p"
  by (simp add: stackInv_def split: if_splits)

lemma processNewTokens_queue:
  "queueInv (tokenizer p) \<Longrightarrow> stackInv p \<Longrightarrow> processNewTokens p = (e, p') \<Longrightarrow>
     queueInv (tokenizer p') \<and> (case e of None \<Rightarrow> atEnd (tokenizer p') | Some err \<Rightarrow> 1 \<le> depth p')"
proof (induction p rule: processNewTokens.induct)
  case (1 p)
  obtain x t1 where nt: "NextToken (tokenizer p) = (x, t1)" by (cases "NextToken (tokenizer p)")
  note q = NextToken_queueInv [OF "1.prems"(1) nt]
  show ?case
  proof (cases x)
    case None
    with nt "1.prems"(3) have "e = None" and "p' = p\<lparr>tokenizer := t1\<rparr>"
      by (simp_all add: processNewTokens.simps [of p])
    with q None show ?thesis by simp
  next
    case (Some token)
    let ?p0 = "p\<lparr>tokenizer := t1\<rparr>"
    obtain e1 p1 where pt: "processToken ?p0 token = (e1, p1)"
      by (cases "processToken ?p0 token")
    have "tokenizer (snd (processToken ?p0 token)) = t1" by (simp add: processToken_tokenizer)
    with pt have tk: "tokenizer p1 = t1" by simp
    from "1.prems"(2) have "stackInv (snd (processToken ?p0 token))"
      by (intro processToken_inv) simp
    with pt have s1: "stackInv p1" by simp
    show ?thesis
    proof (cases e1)
      case None
      with nt Some pt "1.prems"(3) have r: "processNewTokens p1 = (e, p')"
        by (simp add: processNewTokens.simps [of p])
      from q tk have "queueInv (tokenizer p1)" by simp
      from "1.IH" [OF nt [symmetric] Some pt [symmetric] None this s1 r] show ?thesis .
    next
      case (Some err)
      with nt \<open>x = Some token\<close> pt "1.prems"(3) have "e = Some err" and "p' = p1"
        by (simp_all add: processNewTokens.simps [of p])
      moreover from pt Some have "1 \<le> depth p1"
        using processToken_error [of ?p0 token err p1] stackInv_depth [OF "1.prems"(2)] by simp
      ultimately show ?thesis using q tk by simp
    qed
  qed
qed

text \<open>
  Between two calls of \<^verbatim>\<open>Append\<close> the queue is in order, and at depth 0 the tokenizer has
  read its whole buffer: input is left unread only after an error, and then the depth is
  not 0.
\<close>

definition restInv :: "StreamXmlParser \<Rightarrow> bool" where
  "restInv p = (queueInv (tokenizer p) \<and> (depth p = 0 \<longrightarrow> atEnd (tokenizer p)))"

lemma Append_restInv:
  assumes "restInv p" and "stackInv p"
  shows "restInv (snd (Append p data))"
proof (cases "int (length (buffer (tokenizer p)) + length data) > maxBufferSize (tokenizer p)")
  case True
  then have "snd (Append p data) = p" by (simp add: Append_def Append_t_def)
  with assms(1) show ?thesis by simp
next
  case False
  let ?p1 = "p\<lparr>tokenizer := (tokenizer p)\<lparr>buffer := buffer (tokenizer p) @ data,
                                         incompleteReturned := False\<rparr>\<rparr>"
  from False have a: "Append p data = processNewTokens ?p1" by (simp add: Append_def Append_t_def)
  obtain e p' where r: "processNewTokens ?p1 = (e, p')" by (cases "processNewTokens ?p1")
  from assms(1) have "queueInv (tokenizer ?p1)" by (auto simp: restInv_def queueInv_def)
  moreover from assms(2) have "stackInv ?p1" by simp
  ultimately have "queueInv (tokenizer p') \<and>
      (case e of None \<Rightarrow> atEnd (tokenizer p') | Some err \<Rightarrow> 1 \<le> depth p')"
    using r by (rule processNewTokens_queue)
  then have "restInv p'" by (cases e) (simp_all add: restInv_def)
  with a r show ?thesis by simp
qed

lemma reachable_restInv: "reachable p \<Longrightarrow> restInv p"
proof (induction rule: reachable.induct)
  case (new cfg)
  show ?case
    by (simp add: restInv_def queueInv_def atEnd_def NewStreamXmlParserWithConfig_def
          NewStreamXmlTokenizerWithConfig_def SetAllowedElements_def Let_def
          split: option.splits)
next
  case (append p data)
  from append.hyps have "stackInv p" using reachable_parserInv by (simp add: parserInv_def)
  with append.IH show ?case by (rule Append_restInv)
next
  case (allow p elements)
  then show ?case
    by (simp add: restInv_def queueInv_def atEnd_def SetAllowedElements_p_def
          SetAllowedElements_def split: option.splits)
qed

text \<open>
  So a parser at depth 0 whose earlier input did not end inside an unfinished tag has an
  idle tokenizer.
\<close>

lemma reachable_outside_tag_idle:
  assumes "reachable p" and "depth p = 0" and "\<not> inTag (tokenizer p)"
  shows "idle (tokenizer p)"
  using reachable_restInv [OF assms(1)] assms(2,3)
  by (simp add: restInv_def atEnd_def idle_def)


subsection \<open>What a lone closing tag and a nested opening tag do\<close>

text \<open>
  What a caller can observe of a parser, and what decides how it goes on: the document
  tree with the nodes it points to, the depth, the stack, the content being collected and
  the tracked partial node.
\<close>

definition sameDocument :: "StreamXmlParser \<Rightarrow> StreamXmlParser \<Rightarrow> bool" where
  "sameDocument p p' =
     (astNodes p' = astNodes p \<and> heap p' = heap p \<and> depth p' = depth p \<and>
      xmlStack p' = xmlStack p \<and> textParts p' = textParts p \<and>
      currentContent p' = currentContent p \<and> currentPartialNode p' = currentPartialNode p \<and>
      partialNodeIndex p' = partialNodeIndex p \<and> config p' = config p)"

text \<open>
  At depth 0 and with an empty stack, the tokens of a closing tag are collected and then
  dropped: \<^verbatim>\<open>processCompleteTag\<close> takes the closing branch, which does nothing there.
\<close>

lemma feedTokens_tagPart:
  assumes "collectingTag p" and "depth p = 0" and "xmlStack p = []"
    and "2 \<le> length (tagTokens p)" and "Type (tagTokens p ! 1) = TokenSlash"
    and "list_all tagPart mid" and "Type c = TokenCloseBracket"
  shows "fst (feedTokens p (mid @ [c])) = None \<and> sameDocument p (snd (feedTokens p (mid @ [c])))"
  using assms
proof (induction mid arbitrary: p)
  case Nil
  let ?p1 = "p\<lparr>tokenizer := snd (NextToken (tokenizer p))\<rparr>"
  let ?p2 = "?p1\<lparr>tagTokens := tagTokens ?p1 @ [c]\<rparr>"
  from Nil.prems have n: "(tagTokens p @ [c]) ! 1 = tagTokens p ! 1"
    by (simp add: nth_append)
  from Nil.prems n have "processCompleteTag ?p2 = closingTag ?p2"
    by (simp add: processCompleteTag_def Let_def split: prod.splits)
  moreover from Nil.prems have "closingTag ?p2 = (None, ?p2)"
    by (simp add: closingTag_def Let_def)
  ultimately have "processToken ?p1 c = (None, ?p2\<lparr>collectingTag := False, tagTokens := []\<rparr>)"
    using Nil.prems by (simp add: processToken_def)
  then show ?case by (simp add: sameDocument_def)
next
  case (Cons token mid)
  let ?p1 = "p\<lparr>tokenizer := snd (NextToken (tokenizer p))\<rparr>"
  let ?p2 = "?p1\<lparr>tagTokens := tagTokens ?p1 @ [token]\<rparr>"
  from Cons.prems have tp: "tagPart token" and rest: "list_all tagPart mid" by simp_all
  from tp Cons.prems(1) have pt: "processToken ?p1 token = (None, ?p2)"
    by (auto simp: processToken_def tagPart_def)
  have "fst (feedTokens ?p2 (mid @ [c])) = None \<and>
        sameDocument ?p2 (snd (feedTokens ?p2 (mid @ [c])))"
  proof (rule Cons.IH)
    show "Type (tagTokens ?p2 ! 1) = TokenSlash"
      using Cons.prems(4,5) by (simp add: nth_append)
  qed (use Cons.prems rest in simp_all)
  moreover have "sameDocument p ?p2" by (simp add: sameDocument_def)
  ultimately show ?case using pt by (simp add: sameDocument_def)
qed

lemma feedTokens_any_closing_tag:
  assumes "depth p = 0" and "xmlStack p = []" and "list_all tagPart mid"
  shows "fst (feedTokens p (mkToken TokenOpenBracket a b # mkToken TokenSlash c d # mid @
            [mkToken TokenCloseBracket g h])) = None \<and>
         sameDocument p (snd (feedTokens p (mkToken TokenOpenBracket a b # mkToken TokenSlash c d #
            mid @ [mkToken TokenCloseBracket g h])))"
proof -
  let ?o = "mkToken TokenOpenBracket a b" and ?s = "mkToken TokenSlash c d"
  let ?p1 = "p\<lparr>tokenizer := snd (NextToken (tokenizer p))\<rparr>"
  let ?p2 = "?p1\<lparr>collectingTag := True, tagTokens := [?o], tagStartPosP := Start ?o\<rparr>"
  let ?p3 = "?p2\<lparr>tokenizer := snd (NextToken (tokenizer ?p2))\<rparr>"
  let ?p4 = "?p3\<lparr>tagTokens := tagTokens ?p3 @ [?s]\<rparr>"
  have o: "processToken ?p1 ?o = (None, ?p2)" by (simp add: processToken_def mkToken_def)
  have s: "processToken ?p3 ?s = (None, ?p4)" by (simp add: processToken_def mkToken_def)
  have r: "fst (feedTokens ?p4 (mid @ [mkToken TokenCloseBracket g h])) = None \<and>
        sameDocument ?p4 (snd (feedTokens ?p4 (mid @ [mkToken TokenCloseBracket g h])))"
    by (rule feedTokens_tagPart) (simp_all add: assms mkToken_def)
  have f: "feedTokens p (?o # ?s # mid @ [mkToken TokenCloseBracket g h]) =
      feedTokens ?p4 (mid @ [mkToken TokenCloseBracket g h])"
    using o s by simp
  have "sameDocument p ?p4" by (simp add: sameDocument_def)
  with r show ?thesis unfolding f by (auto simp: sameDocument_def)
qed

lemma feedTokens_nested_open_tag:
  assumes "depth p \<ge> 1" and "MaxDepth (config p) = 1"
  shows "fst (feedTokens p [mkToken TokenOpenBracket a b, mkToken TokenElementName e f,
            mkToken TokenCloseBracket g h]) = Some ErrMaxDepthExceeded"
  using assms
  by (simp add: processToken_def mkToken_def processCompleteTag_def openingTag_def Let_def
        checkMaxDepth_def parseTagAttrs.simps split: prod.splits)


lemma Append_idle_tag:
  assumes "idle (tokenizer p)" and "CHR ''>'' \<notin> set s"
    and "\<not> notAllowed (tokenizer p) (tagElementName (CHR ''<'' # s @ ''>''))"
    and "int (length (buffer (tokenizer p)) + length s + 2) \<le> maxBufferSize (tokenizer p)"
  shows "Append p (CHR ''<'' # s @ ''>'') =
     feedTokens
       (p\<lparr>tokenizer := (tokenizer p)\<lparr>buffer := buffer (tokenizer p) @ CHR ''<'' # s @ ''>'',
                                      incompleteReturned := False\<rparr>\<rparr>)
       (tagTokensOf (length (buffer (tokenizer p))) (CHR ''<'' # s @ ''>''))"
proof -
  let ?t1 = "(tokenizer p)\<lparr>buffer := buffer (tokenizer p) @ CHR ''<'' # s @ ''>'',
                           incompleteReturned := False\<rparr>"
  from assms(4) have a: "Append_t (tokenizer p) (CHR ''<'' # s @ ''>'') = (None, ?t1)"
    by (simp add: Append_t_def)
  have "yields (tokenizer (p\<lparr>tokenizer := ?t1\<rparr>))
          (tagTokensOf (length (buffer (tokenizer p))) (CHR ''<'' # s @ ''>''))"
    using idle_yields_tag [OF assms(1,2,3)] by simp
  from processNewTokens_yields [OF this] a show ?thesis by (simp add: Append_def)
qed

definition depthOneConfig :: ParserConfig where
  "depthOneConfig = DefaultConfig\<lparr>MaxDepth := 1\<rparr>"

definition depthOneAllowConfig :: ParserConfig where
  "depthOneAllowConfig =
     DefaultConfig\<lparr>MaxDepth := 1, AllowedElements := Some [''outer'', ''inner'']\<rparr>"

lemma depth_one_runs:
  "fst (Append (NewStreamXmlParserWithConfig depthOneConfig) ''<outer><inner>'') =
     Some ErrMaxDepthExceeded"
  "fst (Append (NewStreamXmlParserWithConfig depthOneAllowConfig) ''<outer><inner>'') =
     Some ErrMaxDepthExceeded"
  "fst (Append (NewStreamXmlParserWithConfig depthOneConfig) ''<outer>'') = None"
  by code_simp+

lemma depth_one_open_state:
  "idle (tokenizer (snd (Append (NewStreamXmlParserWithConfig depthOneConfig) ''<outer>'')))"
  "MaxDepth (config (snd (Append (NewStreamXmlParserWithConfig depthOneConfig) ''<outer>''))) = 1"
  "1 \<le> depth (snd (Append (NewStreamXmlParserWithConfig depthOneConfig) ''<outer>''))"
  "plainName ''inner''"
  "\<not> notAllowed (tokenizer (snd (Append (NewStreamXmlParserWithConfig depthOneConfig) ''<outer>'')))
       ''inner''"
  "int (length (buffer (tokenizer (snd (Append (NewStreamXmlParserWithConfig depthOneConfig)
      ''<outer>'')))) + length ''inner'' + 2)
     \<le> maxBufferSize (tokenizer (snd (Append (NewStreamXmlParserWithConfig depthOneConfig)
      ''<outer>'')))"
  by code_simp+

text \<open>
  C5. With a maximal depth of 1, a parser that is inside an open element (its depth is at
  least 1) and whose tokenizer is idle returns \<open>ErrMaxDepthExceeded\<close> from \<^verbatim>\<open>Append\<close> of
  an opening tag \<^verbatim>\<open><n>\<close> of an allowed element with a plain name, as long as the buffer
  has room for the tag. In particular \<^verbatim>\<open>Append("<outer><inner>")\<close> returns that error on a
  new parser with maximal depth 1, with no allow-list and with both names allowed.
\<close>

theorem nested_opening_tag_exceeds_depth_one:
  assumes "idle (tokenizer p)" and "MaxDepth (config p) = 1" and "1 \<le> depth p"
    and "plainName n" and "\<not> notAllowed (tokenizer p) n"
    and "int (length (buffer (tokenizer p)) + length n + 2) \<le> maxBufferSize (tokenizer p)"
  shows "fst (Append p (''<'' @ n @ ''>'')) = Some ErrMaxDepthExceeded \<and>
         fst (Append (NewStreamXmlParserWithConfig depthOneConfig) ''<outer><inner>'') =
           Some ErrMaxDepthExceeded \<and>
         fst (Append (NewStreamXmlParserWithConfig depthOneAllowConfig) ''<outer><inner>'') =
           Some ErrMaxDepthExceeded"
proof -
  let ?p1 = "p\<lparr>tokenizer := (tokenizer p)\<lparr>buffer := buffer (tokenizer p) @ CHR ''<'' # n @ ''>'',
                                         incompleteReturned := False\<rparr>\<rparr>"
  from assms(4) have gt: "CHR ''>'' \<notin> set n" by (simp add: plainName_def)
  from assms(5) have al: "\<not> notAllowed (tokenizer p) (tagElementName (CHR ''<'' # n @ ''>''))"
    by (simp add: plainName_open_parts [OF assms(4)])
  have "Append p (CHR ''<'' # n @ ''>'') =
      feedTokens ?p1 (tagTokensOf (length (buffer (tokenizer p))) (CHR ''<'' # n @ ''>''))"
    by (rule Append_idle_tag [OF assms(1) gt al assms(6)])
  moreover have "fst (feedTokens ?p1
      (tagTokensOf (length (buffer (tokenizer p))) (CHR ''<'' # n @ ''>''))) =
      Some ErrMaxDepthExceeded"
    unfolding tagTokensOf_open [OF assms(4)]
    by (rule feedTokens_nested_open_tag) (simp_all add: assms(2,3))
  ultimately have "fst (Append p (''<'' @ n @ ''>'')) = Some ErrMaxDepthExceeded" by simp
  with depth_one_runs(1,2) show ?thesis by simp
qed

theorem nested_opening_tag_exceeds_depth_one_witness:
  "fst (Append (snd (Append (NewStreamXmlParserWithConfig depthOneConfig) ''<outer>''))
        ''<inner>'') = Some ErrMaxDepthExceeded"
  using nested_opening_tag_exceeds_depth_one [OF depth_one_open_state]
  by simp


text \<open>
  A run for C10: a text, an element of the allow-list that is opened and closed, a tag
  that is not in the allow-list, and text again. The parser is back at depth 0.
\<close>

definition afterToolRun :: StreamXmlParser where
  "afterToolRun =
     snd (Append (NewStreamXmlParserWithConfig toolThinkingConfig)
            ''Hi <tool id=1>x</tool> <b>bold</b> end'')"

lemma afterToolRun_reachable: "reachable afterToolRun"
  unfolding afterToolRun_def by (intro reachable.append reachable.new)

lemma afterToolRun_state:
  "depth afterToolRun = 0"
  "xmlStack afterToolRun = []"
  "\<not> inTag (tokenizer afterToolRun)"
  "GetText afterToolRun = ''Hi  <b>bold</b> end''"
  "map Name (GetXmlNodeValues afterToolRun) = [''tool'']"
  "map Content (GetXmlNodeValues afterToolRun) = [''x'']"
  by code_simp+

lemma afterToolRun_tags:
  "CHR ''>'' \<notin> set ''tool a=b''"
  "\<not> notAllowed (tokenizer afterToolRun) (tagElementName (''</'' @ ''tool a=b'' @ ''>''))"
  "int (length (buffer (tokenizer afterToolRun)) + length (''</'' @ ''tool a=b'' @ ''>''))
     \<le> maxBufferSize (tokenizer afterToolRun)"
  "CHR ''>'' \<notin> set ''thinking/''"
  "\<not> notAllowed (tokenizer afterToolRun) (tagElementName (''</'' @ ''thinking/'' @ ''>''))"
  "int (length (buffer (tokenizer afterToolRun)) + length (''</'' @ ''thinking/'' @ ''>''))
     \<le> maxBufferSize (tokenizer afterToolRun)"
  by code_simp+

text \<open>
  C10. A complete closing tag of an allowed element, \<^verbatim>\<open></\<close> and any text without \<^verbatim>\<open>>\<close> and
  then \<^verbatim>\<open>>\<close>, as \<^verbatim>\<open></tool>\<close>, \<^verbatim>\<open></tool >\<close> or \<^verbatim>\<open></tool a=b>\<close>, is appended to a parser that a
  caller can have: its depth is 0, its stack is empty, and its earlier input did not end
  inside an unfinished tag, so that the data is read as a tag of its own. \<^verbatim>\<open>Append\<close> then
  returns no error, as long as the buffer has room for the tag, and changes nothing a
  caller can observe: the text, the pointers to the nodes and the nodes they point to,
  the document tree, the store of nodes, the depth, the stack and the tracked partial
  node. The document tree and the nodes are the same, so the characters of the tag are in
  no text node and in no element.
\<close>

theorem lone_closing_tag_changes_nothing:
  assumes "reachable p" and "depth p = 0" and "xmlStack p = []"
    and "\<not> inTag (tokenizer p)"
    and "CHR ''>'' \<notin> set s"
    and "\<not> notAllowed (tokenizer p) (tagElementName (''</'' @ s @ ''>''))"
    and "int (length (buffer (tokenizer p)) + length (''</'' @ s @ ''>'')) \<le> maxBufferSize (tokenizer p)"
  shows "fst (Append p (''</'' @ s @ ''>'')) = None \<and>
         GetText (snd (Append p (''</'' @ s @ ''>''))) = GetText p \<and>
         GetXmlNodes (snd (Append p (''</'' @ s @ ''>''))) = GetXmlNodes p \<and>
         GetXmlNodeValues (snd (Append p (''</'' @ s @ ''>''))) = GetXmlNodeValues p \<and>
         GetAST (snd (Append p (''</'' @ s @ ''>''))) = GetAST p \<and>
         heap (snd (Append p (''</'' @ s @ ''>''))) = heap p \<and>
         depth (snd (Append p (''</'' @ s @ ''>''))) = 0 \<and>
         xmlStack (snd (Append p (''</'' @ s @ ''>''))) = [] \<and>
         trackedPartialNode (snd (Append p (''</'' @ s @ ''>''))) = trackedPartialNode p"
proof -
  let ?tag = "CHR ''<'' # (CHR ''/'' # s) @ ''>''"
  let ?st = "length (buffer (tokenizer p))"
  let ?p1 = "p\<lparr>tokenizer := (tokenizer p)\<lparr>buffer := buffer (tokenizer p) @ ?tag,
                                         incompleteReturned := False\<rparr>\<rparr>"
  have e: "''</'' @ s @ ''>'' = ?tag" by simp
  have i: "idle (tokenizer p)" by (rule reachable_outside_tag_idle [OF assms(1,2,4)])
  from assms(5) have gt: "CHR ''>'' \<notin> set (CHR ''/'' # s)" by simp
  from assms(6) have al: "\<not> notAllowed (tokenizer p) (tagElementName ?tag)" by simp
  from assms(7) have room:
    "int (length (buffer (tokenizer p)) + length (CHR ''/'' # s) + 2) \<le> maxBufferSize (tokenizer p)"
    by simp
  have a: "Append p ?tag = feedTokens ?p1 (tagTokensOf ?st ?tag)"
    by (rule Append_idle_tag [OF i gt al room])
  obtain mid where t: "tagTokensOf ?st ?tag =
      mkToken TokenOpenBracket ?st (?st + 1) # mkToken TokenSlash (?st + 1) (?st + 2) # mid @
        [mkToken TokenCloseBracket (?st + length s + 2) (?st + length s + 3)]"
    and m: "list_all tagPart mid"
    using tagTokensOf_closing [of ?st s] by auto
  have "fst (feedTokens ?p1 (tagTokensOf ?st ?tag)) = None \<and>
        sameDocument ?p1 (snd (feedTokens ?p1 (tagTokensOf ?st ?tag)))"
    unfolding t by (rule feedTokens_any_closing_tag) (simp_all add: assms(2,3) m)
  with a have r: "fst (Append p ?tag) = None" and s: "sameDocument ?p1 (snd (Append p ?tag))"
    by simp_all
  from r s assms(2,3) show ?thesis
    unfolding e
    by (simp add: sameDocument_def GetText_def GetXmlNodes_def GetXmlNodeValues_def GetAST_def
          trackedPartialNode_def)
qed

theorem lone_closing_tag_changes_nothing_witness:
  "fst (Append afterToolRun ''</tool a=b>'') = None \<and>
   GetText (snd (Append afterToolRun ''</tool a=b>'')) = ''Hi  <b>bold</b> end'' \<and>
   GetAST (snd (Append afterToolRun ''</tool a=b>'')) = GetAST afterToolRun \<and>
   map Content (GetXmlNodeValues (snd (Append afterToolRun ''</tool a=b>''))) = [''x''] \<and>
   fst (Append afterToolRun ''</thinking/>'') = None \<and>
   GetAST (snd (Append afterToolRun ''</thinking/>'')) = GetAST afterToolRun"
  using lone_closing_tag_changes_nothing
          [OF afterToolRun_reachable afterToolRun_state(1,2,3) afterToolRun_tags(1,2,3)]
        lone_closing_tag_changes_nothing
          [OF afterToolRun_reachable afterToolRun_state(1,2,3) afterToolRun_tags(4,5,6)]
  by (simp add: afterToolRun_state)

text \<open>
  The closing tag has to begin outside a tag. The tokenizer joins the text of a tag across
  calls: after \<^verbatim>\<open>Append("<")\<close> it is inside a tag, and \<^verbatim>\<open>Append("</tool>")\<close> then completes the
  tag \<^verbatim>\<open><</tool>\<close>, which is an opening tag with the name \<^verbatim>\<open></tool\<close>.
\<close>

lemma closing_tag_inside_tag:
  "inTag (tokenizer (snd (Append NewStreamXmlParser ''<'')))"
  "depth (snd (Append NewStreamXmlParser ''<'')) = 0"
  "xmlStack (snd (Append NewStreamXmlParser ''<'')) = []"
  "fst (Append (snd (Append NewStreamXmlParser ''<'')) ''</tool>'') = None"
  "depth (snd (Append (snd (Append NewStreamXmlParser ''<'')) ''</tool>'')) = 1"
  "map Name (GetXmlNodeValues (snd (Append (snd (Append NewStreamXmlParser ''<'')) ''</tool>'')))
     = [''</tool'']"
  by code_simp+

section \<open>Runs on concrete input\<close>

subsection \<open>One character at a time\<close>

definition perCharInput :: string where
  \<open>perCharInput = ''Before <tool name="test">content here</tool> After''\<close>

definition toolOnlyConfig :: ParserConfig where
  "toolOnlyConfig = DefaultConfig\<lparr>AllowedElements := Some [''tool'']\<rparr>"

text \<open>The input split into chunks of one character, appended to a new parser.\<close>

definition perCharRun :: "ParserConfig \<Rightarrow> error option \<times> StreamXmlParser" where
  "perCharRun cfg = AppendAll (NewStreamXmlParserWithConfig cfg) (map (\<lambda>c. [c]) perCharInput)"

lemma AppendAll_no_error:
  "fst (AppendAll p cs) = None \<Longrightarrow> cs = pre @ c # post \<Longrightarrow>
     fst (AppendAll p pre) = None \<and> fst (Append (snd (AppendAll p pre)) c) = None"
proof (induction pre arbitrary: p cs)
  case Nil
  then show ?case by (cases "Append p c") (auto split: option.splits)
next
  case (Cons a pre)
  obtain e p1 where a: "Append p a = (e, p1)" by (cases "Append p a")
  with Cons.prems have e: "e = None" by (cases e) auto
  with a Cons.prems have "fst (AppendAll p1 (pre @ c # post)) = None" by simp
  from Cons.IH [OF this refl] a e show ?case by simp
qed

lemma perCharRun_default_values:
  "(fst (perCharRun DefaultConfig), GetText (snd (perCharRun DefaultConfig)),
    GetXmlNodes (snd (perCharRun DefaultConfig)),
    Name (heap (snd (perCharRun DefaultConfig)) ! 0),
    Content (heap (snd (perCharRun DefaultConfig)) ! 0),
    Partial (heap (snd (perCharRun DefaultConfig)) ! 0),
    Attributes (heap (snd (perCharRun DefaultConfig)) ! 0) ''name'') =
   (None, ''Before  After'', [0], ''tool'', ''content here'', False, Some ''test'')"
  by code_simp

lemma perCharRun_default:
  "fst (perCharRun DefaultConfig) = None"
  "GetText (snd (perCharRun DefaultConfig)) = ''Before  After''"
  "GetXmlNodes (snd (perCharRun DefaultConfig)) = [0]"
  "Name (heap (snd (perCharRun DefaultConfig)) ! 0) = ''tool''"
  "Content (heap (snd (perCharRun DefaultConfig)) ! 0) = ''content here''"
  "Partial (heap (snd (perCharRun DefaultConfig)) ! 0) = False"
  "Attributes (heap (snd (perCharRun DefaultConfig)) ! 0) ''name'' = Some ''test''"
  using perCharRun_default_values by simp_all

lemma perCharRun_default_attr_other:
  "k \<noteq> ''name'' \<Longrightarrow> Attributes (heap (snd (perCharRun DefaultConfig)) ! 0) k = None"
  apply code_simp
  apply simp
  done

lemma perCharRun_default_attrs:
  "Attributes (heap (snd (perCharRun DefaultConfig)) ! 0) = [''name'' \<mapsto> ''test'']"
proof (rule ext)
  fix k
  show "Attributes (heap (snd (perCharRun DefaultConfig)) ! 0) k = [''name'' \<mapsto> ''test''] k"
    using perCharRun_default(7) perCharRun_default_attr_other [of k]
    by (cases "k = ''name''") simp_all
qed

lemma perCharRun_allowed_values:
  "(fst (perCharRun toolOnlyConfig), GetText (snd (perCharRun toolOnlyConfig)),
    GetXmlNodes (snd (perCharRun toolOnlyConfig)),
    Name (heap (snd (perCharRun toolOnlyConfig)) ! 0),
    Content (heap (snd (perCharRun toolOnlyConfig)) ! 0),
    Partial (heap (snd (perCharRun toolOnlyConfig)) ! 0),
    Attributes (heap (snd (perCharRun toolOnlyConfig)) ! 0) ''name'') =
   (None, ''Before  After'', [0], ''tool'', ''content here'', False, Some ''test'')"
  by code_simp

lemma perCharRun_allowed:
  "fst (perCharRun toolOnlyConfig) = None"
  "GetText (snd (perCharRun toolOnlyConfig)) = ''Before  After''"
  "GetXmlNodes (snd (perCharRun toolOnlyConfig)) = [0]"
  "Name (heap (snd (perCharRun toolOnlyConfig)) ! 0) = ''tool''"
  "Content (heap (snd (perCharRun toolOnlyConfig)) ! 0) = ''content here''"
  "Partial (heap (snd (perCharRun toolOnlyConfig)) ! 0) = False"
  "Attributes (heap (snd (perCharRun toolOnlyConfig)) ! 0) ''name'' = Some ''test''"
  using perCharRun_allowed_values by simp_all

lemma perCharRun_allowed_attr_other:
  "k \<noteq> ''name'' \<Longrightarrow> Attributes (heap (snd (perCharRun toolOnlyConfig)) ! 0) k = None"
  apply code_simp
  apply simp
  done

lemma perCharRun_allowed_attrs:
  "Attributes (heap (snd (perCharRun toolOnlyConfig)) ! 0) = [''name'' \<mapsto> ''test'']"
proof (rule ext)
  fix k
  show "Attributes (heap (snd (perCharRun toolOnlyConfig)) ! 0) k = [''name'' \<mapsto> ''test''] k"
    using perCharRun_allowed(7) perCharRun_allowed_attr_other [of k]
    by (cases "k = ''name''") simp_all
qed

text \<open>
  C2. The input \<^verbatim>\<open>Before <tool name="test">content here</tool> After\<close> is appended one
  character at a time to a new parser, once with the default configuration (every element
  allowed) and once with the allow-list \<^verbatim>\<open>{"tool"}\<close>. No call of \<^verbatim>\<open>Append\<close> returns an
  error (\<open>AppendAll\<close> stops at the first one), and afterwards there is one element node,
  with the name \<^verbatim>\<open>tool\<close>, the attributes \<^verbatim>\<open>{"name": "test"}\<close>, the content
  \<^verbatim>\<open>content here\<close> and \<open>Partial = False\<close>, and \<^verbatim>\<open>GetText\<close> returns \<^verbatim>\<open>Before  After\<close>.
\<close>

theorem per_character_streaming:
  "fst (perCharRun DefaultConfig) = None \<and>
   GetText (snd (perCharRun DefaultConfig)) = ''Before  After'' \<and>
   GetXmlNodeValues (snd (perCharRun DefaultConfig)) =
     [\<lparr>Name = ''tool'', Attributes = [''name'' \<mapsto> ''test''], Content = ''content here'',
       Partial = False,
       StartPos = StartPos (heap (snd (perCharRun DefaultConfig)) ! 0),
       EndPos = EndPos (heap (snd (perCharRun DefaultConfig)) ! 0)\<rparr>] \<and>
   fst (perCharRun toolOnlyConfig) = None \<and>
   GetText (snd (perCharRun toolOnlyConfig)) = ''Before  After'' \<and>
   GetXmlNodeValues (snd (perCharRun toolOnlyConfig)) =
     [\<lparr>Name = ''tool'', Attributes = [''name'' \<mapsto> ''test''], Content = ''content here'',
       Partial = False,
       StartPos = StartPos (heap (snd (perCharRun toolOnlyConfig)) ! 0),
       EndPos = EndPos (heap (snd (perCharRun toolOnlyConfig)) ! 0)\<rparr>]"
proof -
  have "GetXmlNodeValues (snd (perCharRun cfg)) = [heap (snd (perCharRun cfg)) ! 0]"
    if "GetXmlNodes (snd (perCharRun cfg)) = [0]" for cfg
    using that by (simp add: GetXmlNodeValues_def)
  with perCharRun_default perCharRun_default_attrs perCharRun_allowed perCharRun_allowed_attrs
  show ?thesis by (simp add: XmlNode.equality)
qed


subsection \<open>Nested tags\<close>

definition outerInnerConfig :: ParserConfig where
  "outerInnerConfig = DefaultConfig\<lparr>AllowedElements := Some [''outer'', ''inner'']\<rparr>"

definition nestedRun :: "ParserConfig \<Rightarrow> error option \<times> StreamXmlParser" where
  "nestedRun cfg = Append (NewStreamXmlParserWithConfig cfg) ''<outer><inner>x</inner></outer>''"

lemma nestedRun_default_values:
  "(fst (nestedRun DefaultConfig), GetXmlNodes (snd (nestedRun DefaultConfig)),
    Name (heap (snd (nestedRun DefaultConfig)) ! 0),
    Content (heap (snd (nestedRun DefaultConfig)) ! 0),
    Partial (heap (snd (nestedRun DefaultConfig)) ! 0)) =
   (None, [0], ''outer'', ''<inner>x</inner>'', False)"
  by code_simp

lemma nestedRun_allowed_values:
  "(fst (nestedRun outerInnerConfig), GetXmlNodes (snd (nestedRun outerInnerConfig)),
    Name (heap (snd (nestedRun outerInnerConfig)) ! 0),
    Content (heap (snd (nestedRun outerInnerConfig)) ! 0),
    Partial (heap (snd (nestedRun outerInnerConfig)) ! 0)) =
   (None, [0], ''outer'', ''<inner>x</inner>'', False)"
  by code_simp

lemma nested_attributes_run:
  \<open>map Content (GetXmlNodeValues (snd (Append NewStreamXmlParser
       ''<outer><inner a='1' b=2/></outer>''))) = [''<inner a="1" b="2"/>'']\<close>
  by code_simp

text \<open>
  The serialization of a tag in the words of the specification: \<^verbatim>\<open><\<close>, an optional
  \<^verbatim>\<open>/\<close>, the name, for each attribute a space, its name, \<^verbatim>\<open>=\<close> and its value in double
  quotes, an optional trailing \<^verbatim>\<open>/\<close>, and \<^verbatim>\<open>>\<close>.
\<close>

definition serializeTag :: "bool \<Rightarrow> string \<Rightarrow> (string \<times> string) list \<Rightarrow> bool \<Rightarrow> string" where
  "serializeTag closing name attrs selfClosing =
     ''<'' @ (if closing then ''/'' else []) @ name @
     concat (map (\<lambda>(a, v). '' '' @ a @ ''='' @ [CHR 0x22] @ v @ [CHR 0x22]) attrs) @
     (if selfClosing then ''/'' else []) @ ''>''"

lemma reconstruct_attributes:
  "list_all (\<lambda>(ta, te, tv). Type ta = TokenAttributeName \<and> Type te = TokenEquals \<and>
                             Type tv = TokenAttributeValue) triples \<Longrightarrow>
   concat (map (\<lambda>token. tokenText (Type token) (getValue p token))
             (concat (map (\<lambda>(ta, te, tv). [ta, te, tv]) triples))) =
   concat (map (\<lambda>(a, v). '' '' @ a @ ''='' @ [CHR 0x22] @ v @ [CHR 0x22])
             (map (\<lambda>(ta, te, tv). (getValue p ta, getValue p tv)) triples))"
  by (induction triples) (auto simp: tokenText_def)

text \<open>
  C7. \<^verbatim>\<open>reconstructTag\<close> gives the serialization of the specification for the tokens of
  a tag: the opening bracket, a slash if the tag is closing, the name, a triple of name,
  equals sign and value for each attribute, a slash if the tag is self-closing, and the
  closing bracket. Appending \<^verbatim>\<open><outer><inner>x</inner></outer>\<close> to a new parser, with no
  allow-list and with both names allowed, gives one element node, named \<^verbatim>\<open>outer\<close>, with
  the content \<^verbatim>\<open><inner>x</inner>\<close>; there is no node for \<^verbatim>\<open>inner\<close>. A nested
  \<^verbatim>\<open><inner a='1' b=2/>\<close> is kept as \<^verbatim>\<open><inner a="1" b="2"/>\<close>.
\<close>

theorem nested_tags_fold_to_content:
  assumes "tagTokens p =
             [tO] @ (if closing then [tS] else []) @ [tN] @
             concat (map (\<lambda>(ta, te, tv). [ta, te, tv]) triples) @
             (if selfClosing then [tS'] else []) @ [tC]"
    and "Type tO = TokenOpenBracket" and "Type tS = TokenSlash" and "Type tN = TokenElementName"
    and "list_all (\<lambda>(ta, te, tv). Type ta = TokenAttributeName \<and> Type te = TokenEquals \<and>
                                  Type tv = TokenAttributeValue) triples"
    and "Type tS' = TokenSlash" and "Type tC = TokenCloseBracket"
  shows "reconstructTag p =
           serializeTag closing (getValue p tN)
             (map (\<lambda>(ta, te, tv). (getValue p ta, getValue p tv)) triples) selfClosing \<and>
         fst (nestedRun DefaultConfig) = None \<and>
         map Name (GetXmlNodeValues (snd (nestedRun DefaultConfig))) = [''outer''] \<and>
         map Content (GetXmlNodeValues (snd (nestedRun DefaultConfig))) = [''<inner>x</inner>''] \<and>
         fst (nestedRun outerInnerConfig) = None \<and>
         map Name (GetXmlNodeValues (snd (nestedRun outerInnerConfig))) = [''outer''] \<and>
         map Content (GetXmlNodeValues (snd (nestedRun outerInnerConfig))) = [''<inner>x</inner>'']"
proof -
  have "reconstructTag p =
           serializeTag closing (getValue p tN)
             (map (\<lambda>(ta, te, tv). (getValue p ta, getValue p tv)) triples) selfClosing"
    unfolding reconstructTag_def serializeTag_def assms(1)
    using assms(2,3,4,6,7) reconstruct_attributes [OF assms(5), of p]
    by (simp add: tokenText_def)
  moreover have "GetXmlNodeValues (snd (nestedRun cfg)) = [heap (snd (nestedRun cfg)) ! 0]"
    if "GetXmlNodes (snd (nestedRun cfg)) = [0]" for cfg
    using that by (simp add: GetXmlNodeValues_def)
  ultimately show ?thesis
    using nestedRun_default_values nestedRun_allowed_values by simp
qed


text \<open>A parser that has collected the tokens of the tag \<^verbatim>\<open><a b=c/>\<close>.\<close>

definition collectedTag :: StreamXmlParser where
  "collectedTag =
     NewStreamXmlParser
       \<lparr>tokenizer := (tokenizer NewStreamXmlParser)\<lparr>buffer := ''<a b=c/>''\<rparr>,
        tagTokens := tagTokensOf 0 ''<a b=c/>''\<rparr>"

lemma collectedTag_tokens:
  "tagTokens collectedTag =
     [mkToken TokenOpenBracket 0 1] @ (if False then [mkToken TokenSlash 0 0] else []) @
     [mkToken TokenElementName 1 2] @
     concat (map (\<lambda>(ta, te, tv). [ta, te, tv])
       [(mkToken TokenAttributeName 3 4, mkToken TokenEquals 4 5,
         mkToken TokenAttributeValue 5 6)]) @
     (if True then [mkToken TokenSlash 6 7] else []) @ [mkToken TokenCloseBracket 7 8]"
  by code_simp

lemma collectedTag_serialized:
  \<open>serializeTag False (getValue collectedTag (mkToken TokenElementName 1 2))
     (map (\<lambda>(ta, te, tv). (getValue collectedTag ta, getValue collectedTag tv))
        [(mkToken TokenAttributeName 3 4, mkToken TokenEquals 4 5,
          mkToken TokenAttributeValue 5 6)]) True = ''<a b="c"/>''\<close>
  by code_simp

theorem nested_tags_fold_to_content_witness:
  \<open>reconstructTag collectedTag = ''<a b="c"/>''\<close>
proof -
  have t: "Type (mkToken ty a b) = ty" for ty a b by (simp add: mkToken_def)
  have "reconstructTag collectedTag =
      serializeTag False (getValue collectedTag (mkToken TokenElementName 1 2))
        (map (\<lambda>(ta, te, tv). (getValue collectedTag ta, getValue collectedTag tv))
           [(mkToken TokenAttributeName 3 4, mkToken TokenEquals 4 5,
             mkToken TokenAttributeValue 5 6)]) True"
    using nested_tags_fold_to_content [OF collectedTag_tokens]
    by (simp add: t)
  then show ?thesis by (simp only: collectedTag_serialized)
qed

subsection \<open>One input in two ways\<close>

lemma split_inside_nested_tag:
  "map Content (GetXmlNodeValues (snd (Append NewStreamXmlParser ''<a><b>x</b></a>''))) =
     [''<b>x</b>'']"
  "fst (AppendAll NewStreamXmlParser [''<a><'', ''b>x</b></a>'']) = None"
  "map Content (GetXmlNodeValues (snd (AppendAll NewStreamXmlParser [''<a><'', ''b>x</b></a>'']))) =
     [''<<b>x</b>'']"
  by code_simp+

lemma split_inside_closing_tag:
  "length (GetXmlNodes (snd (Append NewStreamXmlParser ''a </b> c''))) = 0"
  "fst (AppendAll NewStreamXmlParser [''a <'', ''/b> c'']) = None"
  "length (GetXmlNodes (snd (AppendAll NewStreamXmlParser [''a <'', ''/b> c'']))) = 1"
  by code_simp+

text \<open>
  C1 fails on the code. The input \<^verbatim>\<open><a><b>x</b></a>\<close> appended at once gives the element
  \<^verbatim>\<open>a\<close> the content \<^verbatim>\<open><b>x</b>\<close>; appended as the chunks \<^verbatim>\<open><a><\<close> and \<^verbatim>\<open>b>x</b></a>\<close> it
  gives the content \<^verbatim>\<open><<b>x</b>\<close>: the \<^verbatim>\<open><\<close> of the unfinished nested tag is written to the
  content and stays there when the tag is completed. The input \<^verbatim>\<open>a </b> c\<close> appended at
  once gives no element node; as the chunks \<^verbatim>\<open>a <\<close> and \<^verbatim>\<open>/b> c\<close> it leaves one partial
  node behind.
\<close>

theorem chunked_append_differs_from_single_append:
  "concat [''<a><'', ''b>x</b></a>''] = ''<a><b>x</b></a>'' \<and>
   map Content (GetXmlNodeValues (snd (Append NewStreamXmlParser ''<a><b>x</b></a>''))) =
     [''<b>x</b>''] \<and>
   fst (AppendAll NewStreamXmlParser [''<a><'', ''b>x</b></a>'']) = None \<and>
   map Content (GetXmlNodeValues (snd (AppendAll NewStreamXmlParser [''<a><'', ''b>x</b></a>'']))) =
     [''<<b>x</b>''] \<and>
   concat [''a <'', ''/b> c''] = ''a </b> c'' \<and>
   length (GetXmlNodes (snd (Append NewStreamXmlParser ''a </b> c''))) = 0 \<and>
   fst (AppendAll NewStreamXmlParser [''a <'', ''/b> c'']) = None \<and>
   length (GetXmlNodes (snd (AppendAll NewStreamXmlParser [''a <'', ''/b> c'']))) = 1"
  using split_inside_nested_tag split_inside_closing_tag by simp

end
